theory Spec2Isabelle
  imports Main "HOL-Library.AList" "HOL-Library.Char_ord" "HOL-Library.List_Lexorder"
begin

section \<open>Relationship analyzer: data model\<close>

text \<open>
  The model follows \<^verbatim>\<open>scripts/relationship_analyzer.py\<close>. Python dictionaries with a
  fixed set of keys are records; the adjacency dictionary, whose key order is the
  insertion order, is an association list; exceptions are values of \<open>error\<close>.
\<close>

datatype error = KeyError string

text \<open>One row of \<^verbatim>\<open>get_foreign_keys\<close>.\<close>

record foreign_key =
  constraint_name :: string
  from_table :: string
  from_column :: string
  to_table :: string
  to_column :: string
  on_update :: string
  on_delete :: string

text \<open>
  An entry of an adjacency list. The forward entry is written without the key
  \<^verbatim>\<open>'reverse'\<close>, the reverse entry with \<^verbatim>\<open>'reverse': True\<close>; an absent key is \<open>None\<close>.
\<close>

record edge =
  edge_to :: string
  edge_from_column :: string
  edge_to_column :: string
  edge_constraint :: string
  edge_reverse :: "bool option"

text \<open>A step of a join path, as built inside \<^verbatim>\<open>find_path_between_tables\<close>.\<close>

record join_step =
  step_from :: string
  step_to :: string
  step_from_column :: string
  step_to_column :: string
  step_constraint :: string
  step_reverse :: bool

text \<open>An entry of the list returned by \<^verbatim>\<open>detect_many_to_many\<close>.\<close>

record junction =
  junction_table :: string
  table1 :: string
  table1_column :: string
  table2 :: string
  table2_column :: string
  junction_column1 :: string
  junction_column2 :: string

type_synonym adjacency_map = "(string \<times> edge list) list"

record graph =
  nodes :: "string list"
  adjacency :: adjacency_map
  foreign_keys :: "foreign_key list"
  many_to_many :: "junction list"

text \<open>
  The database connection is used for two queries only: the foreign keys of a schema and
  the number of columns of a table of a schema. A connection is the pair of their answers.
\<close>

record connection =
  fk_rows :: "string \<Rightarrow> foreign_key list"
  column_count :: "string \<Rightarrow> string \<Rightarrow> int"

definition get_foreign_keys :: "connection \<Rightarrow> string \<Rightarrow> foreign_key list" where
  "get_foreign_keys conn schema = fk_rows conn schema"

section \<open>Path finder\<close>

type_synonym bfs_queue = "(string \<times> join_step list) list"

definition make_step :: "string \<Rightarrow> edge \<Rightarrow> join_step" where
  "make_step current_table e =
     \<lparr> step_from = current_table,
       step_to = edge_to e,
       step_from_column = edge_from_column e,
       step_to_column = edge_to_column e,
       step_constraint = edge_constraint e,
       step_reverse = (case edge_reverse e of None \<Rightarrow> False | Some b \<Rightarrow> b) \<rparr>"

text \<open>
  The \<^verbatim>\<open>for edge in graph['adjacency'][current_table]\<close> loop: \<open>Inl\<close> is the
  \<^verbatim>\<open>return new_path\<close> from inside the loop, \<open>Inr\<close> the visited set and the queue at
  the end of the loop.
\<close>

fun visit_edges ::
  "string \<Rightarrow> string \<Rightarrow> join_step list \<Rightarrow> edge list \<Rightarrow> string set \<Rightarrow> bfs_queue
     \<Rightarrow> join_step list + (string set \<times> bfs_queue)" where
  "visit_edges end_table current_table path [] visited queue = Inr (visited, queue)"
| "visit_edges end_table current_table path (e # es) visited queue =
     (let next_table = edge_to e in
      if next_table \<in> visited then visit_edges end_table current_table path es visited queue
      else
        let new_path = path @ [make_step current_table e] in
        if next_table = end_table then Inl new_path
        else visit_edges end_table current_table path es
               (insert next_table visited) (queue @ [(next_table, new_path)]))"

definition destinations :: "adjacency_map \<Rightarrow> string set" where
  "destinations adj = edge_to ` (\<Union>(k, es) \<in> set adj. set es)"

lemma finite_destinations: "finite (destinations adj)"
  by (auto simp: destinations_def)

lemma map_of_destinations:
  "map_of adj k = Some es \<Longrightarrow> edge_to ` set es \<subseteq> destinations adj"
  by (force simp: destinations_def dest: map_of_SomeD)

lemma visit_edges_measure:
  "finite D \<Longrightarrow> edge_to ` set es \<subseteq> D \<Longrightarrow>
   visit_edges end_table cur path es visited queue = Inr (visited', queue') \<Longrightarrow>
   card (D - visited') + length queue' = card (D - visited) + length queue"
proof (induction es arbitrary: visited queue)
  case Nil
  then show ?case by simp
next
  case (Cons e es)
  show ?case
  proof (cases "edge_to e \<in> visited")
    case True
    with Cons show ?thesis by simp
  next
    case False
    with Cons.prems have ne: "edge_to e \<noteq> end_table"
      by (auto simp: Let_def split: if_splits)
    with False Cons.prems have rec:
      "visit_edges end_table cur path es (insert (edge_to e) visited)
         (queue @ [(edge_to e, path @ [make_step cur e])]) = Inr (visited', queue')"
      by (simp add: Let_def)
    from Cons.prems have sub: "edge_to ` set es \<subseteq> D" and mem: "edge_to e \<in> D"
      by auto
    have "card (D - visited') + length queue' =
          card (D - insert (edge_to e) visited) + Suc (length queue)"
      using Cons.IH [OF Cons.prems(1) sub rec] by simp
    moreover have "edge_to e \<in> D - visited"
      using mem False by simp
    then have "card (D - visited) = Suc (card (D - insert (edge_to e) visited))"
      using Cons.prems(1)
      by (metis Diff_insert card_Suc_Diff1 finite_Diff)
    ultimately show ?thesis by simp
  qed
qed

text \<open>
  The \<^verbatim>\<open>while queue\<close> loop. \<^verbatim>\<open>graph['adjacency'][current_table]\<close> raises
  \<^verbatim>\<open>KeyError\<close> when the dequeued table is not a key of the adjacency dictionary.
\<close>

function bfs_loop ::
  "adjacency_map \<Rightarrow> string \<Rightarrow> string set \<Rightarrow> bfs_queue \<Rightarrow> error + join_step list option" where
  "bfs_loop adj end_table visited [] = Inr None"
| "bfs_loop adj end_table visited ((current_table, path) # queue) =
     (case map_of adj current_table of
        None \<Rightarrow> Inl (KeyError current_table)
      | Some edges \<Rightarrow>
          (case visit_edges end_table current_table path edges visited queue of
             Inl new_path \<Rightarrow> Inr (Some new_path)
           | Inr (visited', queue') \<Rightarrow> bfs_loop adj end_table visited' queue'))"
  by pat_completeness auto
termination
proof (relation "measure (\<lambda>(adj, end_table, visited, queue).
                   card (destinations adj - visited) + length queue)", goal_cases)
  case 1
  show ?case by simp
next
  case (2 adj end_table visited current_table path queue edges r visited' queue')
  then have "visit_edges end_table current_table path edges visited queue
               = Inr (visited', queue')"
    by simp
  from visit_edges_measure [OF finite_destinations map_of_destinations [OF 2(1)] this]
  show ?case by simp
qed

definition find_path_between_tables ::
  "graph \<Rightarrow> string \<Rightarrow> string \<Rightarrow> error + join_step list option" where
  "find_path_between_tables g start_table end_table =
     (if map_of (adjacency g) start_table = None \<or> map_of (adjacency g) end_table = None
      then Inr None
      else if start_table = end_table then Inr (Some [])
      else bfs_loop (adjacency g) end_table {start_table} [(start_table, [])])"

section \<open>Junction tables and the relationship graph\<close>

text \<open>\<^verbatim>\<open>d[k].append(v)\<close> on a \<^verbatim>\<open>defaultdict(list)\<close>: a new key goes to the end.\<close>

definition dict_append :: "string \<Rightarrow> 'v \<Rightarrow> (string \<times> 'v list) list \<Rightarrow> (string \<times> 'v list) list" where
  "dict_append k v d =
     AList.update k ((case map_of d k of None \<Rightarrow> [] | Some vs \<Rightarrow> vs) @ [v]) d"

fun group_by_table ::
  "foreign_key list \<Rightarrow> (string \<times> foreign_key list) list \<Rightarrow> (string \<times> foreign_key list) list" where
  "group_by_table [] fk_by_table = fk_by_table"
| "group_by_table (fk # rest) fk_by_table =
     group_by_table rest (dict_append (from_table fk) fk fk_by_table)"

text \<open>The loop over \<^verbatim>\<open>fk_by_table.items()\<close>, with the list \<^verbatim>\<open>many_to_many\<close> (here \<open>m2m\<close>) it extends.\<close>

fun junction_loop ::
  "connection \<Rightarrow> string \<Rightarrow> (string \<times> foreign_key list) list \<Rightarrow> junction list \<Rightarrow> junction list" where
  "junction_loop conn schema [] m2m = m2m"
| "junction_loop conn schema ((table_name, fks) # rest) m2m =
     junction_loop conn schema rest
       (if length fks = 2 then
          (if column_count conn schema table_name \<le> 4 then
             m2m @
               [\<lparr> junction_table = table_name,
                  table1 = to_table (fks ! 0),
                  table1_column = to_column (fks ! 0),
                  table2 = to_table (fks ! 1),
                  table2_column = to_column (fks ! 1),
                  junction_column1 = from_column (fks ! 0),
                  junction_column2 = from_column (fks ! 1) \<rparr>]
           else m2m)
        else m2m)"

definition detect_many_to_many :: "connection \<Rightarrow> string \<Rightarrow> junction list" where
  "detect_many_to_many conn schema =
     junction_loop conn schema (group_by_table (get_foreign_keys conn schema) []) []"

definition forward_edge :: "foreign_key \<Rightarrow> edge" where
  "forward_edge fk =
     \<lparr> edge_to = to_table fk,
       edge_from_column = from_column fk,
       edge_to_column = to_column fk,
       edge_constraint = constraint_name fk,
       edge_reverse = None \<rparr>"

definition reverse_edge :: "foreign_key \<Rightarrow> edge" where
  "reverse_edge fk =
     \<lparr> edge_to = from_table fk,
       edge_from_column = to_column fk,
       edge_to_column = from_column fk,
       edge_constraint = constraint_name fk,
       edge_reverse = Some True \<rparr>"

text \<open>The loop of \<^verbatim>\<open>build_relationship_graph\<close> over the foreign keys.\<close>

fun build_adjacency :: "foreign_key list \<Rightarrow> adjacency_map \<Rightarrow> adjacency_map" where
  "build_adjacency [] adj = adj"
| "build_adjacency (fk # rest) adj =
     build_adjacency rest
       (dict_append (to_table fk) (reverse_edge fk)
          (dict_append (from_table fk) (forward_edge fk) adj))"

definition build_relationship_graph :: "connection \<Rightarrow> string \<Rightarrow> graph" where
  "build_relationship_graph conn schema =
     (let fks = get_foreign_keys conn schema;
          m2m = detect_many_to_many conn schema
      in \<lparr> nodes = sort (remdups (concat (map (\<lambda>fk. [from_table fk, to_table fk]) fks))),
           adjacency = build_adjacency fks [],
           foreign_keys = fks,
           many_to_many = m2m \<rparr>)"

section \<open>Join synthesis\<close>

text \<open>\<^verbatim>\<open>sep.join(parts)\<close>.\<close>

fun str_join :: "string \<Rightarrow> string list \<Rightarrow> string" where
  "str_join sep [] = []"
| "str_join sep [x] = x"
| "str_join sep (x # y # ys) = x @ sep @ str_join sep (y # ys)"

text \<open>\<^verbatim>\<open>s.split(sep)[0]\<close> for a non-empty separator: the text before its first occurrence.\<close>

fun split_head :: "string \<Rightarrow> string \<Rightarrow> string" where
  "split_head sep [] = []"
| "split_head sep (c # cs) =
     (if take (length sep) (c # cs) = sep then [] else c # split_head sep cs)"

text \<open>\<^verbatim>\<open>str(n)\<close> for the result of \<^verbatim>\<open>len\<close>.\<close>

function str_nat :: "nat \<Rightarrow> string" where
  "str_nat n =
     (if n < 10 then [''0123456789'' ! n]
      else str_nat (n div 10) @ [''0123456789'' ! (n mod 10)])"
  by pat_completeness auto
termination
  by (relation "measure (\<lambda>n. n)") auto

declare str_nat.simps [simp del]

text \<open>The separator \<^verbatim>\<open>' -> '\<close> written with the arrow U+2192, in UTF-8.\<close>

definition arrow :: string where
  "arrow = [CHR 0x20, CHR 0xE2, CHR 0x86, CHR 0x92, CHR 0x20]"

definition join_line :: "join_step \<Rightarrow> string" where
  "join_line step =
     ''JOIN '' @ step_to step @ '' ON '' @
       (step_from step @ ''.'' @ step_from_column step @ '' = '' @
        step_to step @ ''.'' @ step_to_column step)"

record join_suggestion =
  suggest_success :: bool
  suggest_path :: "join_step list option"
  suggest_sql :: "string option"
  suggest_explanation :: string

definition no_relationship :: "string \<Rightarrow> string \<Rightarrow> join_suggestion" where
  "no_relationship table1_name table2_name =
     \<lparr> suggest_success = False, suggest_path = None, suggest_sql = None,
       suggest_explanation = ''No foreign key relationship found between '' @ [CHR 0x27] @ table1_name @
                     [CHR 0x27] @ '' and '' @ [CHR 0x27] @ table2_name @ [CHR 0x27] \<rparr>"

text \<open>
  \<^verbatim>\<open>suggest_join_pattern\<close> from the call of the path finder on, for the graph it has
  built. \<^verbatim>\<open>if not path\<close> holds for \<^verbatim>\<open>None\<close> and for the empty list.
\<close>

definition suggest_join_on_graph :: "graph \<Rightarrow> string \<Rightarrow> string \<Rightarrow> error + join_suggestion" where
  "suggest_join_on_graph g table1_name table2_name =
     (case find_path_between_tables g table1_name table2_name of
        Inl e \<Rightarrow> Inl e
      | Inr None \<Rightarrow> Inr (no_relationship table1_name table2_name)
      | Inr (Some []) \<Rightarrow> Inr (no_relationship table1_name table2_name)
      | Inr (Some (first # others)) \<Rightarrow>
          (let p = first # others;
               sql_parts = [''FROM '' @ step_from first] @ map join_line p;
               expl =
                 (if length p = 1 then
                    ''Direct relationship: '' @ table1_name @ ''.'' @ step_from_column first @
                    arrow @ table2_name @ ''.'' @ step_to_column first
                  else
                    ''Path through '' @ str_nat (length p) @ '' tables: '' @
                    str_join arrow
                      (map (\<lambda>step. split_head arrow (step_from step @ arrow @ step_to step)) p
                       @ [step_to (last p)]))
           in Inr \<lparr> suggest_success = True, suggest_path = Some p,
                    suggest_sql = Some (str_join [CHR 0x0A] sql_parts),
                    suggest_explanation = expl \<rparr>))"

definition suggest_join_pattern ::
  "connection \<Rightarrow> string \<Rightarrow> string \<Rightarrow> string \<Rightarrow> error + join_suggestion" where
  "suggest_join_pattern conn table1_name table2_name schema =
     suggest_join_on_graph (build_relationship_graph conn schema) table1_name table2_name"

record join_query =
  query_success :: bool
  query_sql :: "string option"
  query_explanation :: string
  query_paths :: "join_step list"

text \<open>
  \<^verbatim>\<open>joined_tables\<close> is a Python set of strings: the order in which
  \<^verbatim>\<open>for joined_table in joined_tables\<close> visits it is fixed by the interpreter's hashing,
  not by the program. The model keeps the members in insertion order and takes the
  iteration order as a parameter \<open>iter\<close>, which rearranges that list.
\<close>

definition set_add :: "string \<Rightarrow> string list \<Rightarrow> string list" where
  "set_add x xs = (if x \<in> set xs then xs else xs @ [x])"

definition truthy :: "join_step list option \<Rightarrow> bool" where
  "truthy p = (case p of None \<Rightarrow> False | Some steps \<Rightarrow> steps \<noteq> [])"

text \<open>
  The inner loop: \<^verbatim>\<open>path\<close> keeps the last answer of the path finder and the loop
  breaks at the first answer that is truthy.
\<close>

fun try_joined ::
  "graph \<Rightarrow> string \<Rightarrow> string list \<Rightarrow> join_step list option \<Rightarrow> error + join_step list option" where
  "try_joined g target_table [] p = Inr p"
| "try_joined g target_table (joined_table # rest) p =
     (case find_path_between_tables g joined_table target_table of
        Inl e \<Rightarrow> Inl e
      | Inr p' \<Rightarrow> if truthy p' then Inr p' else try_joined g target_table rest p')"

datatype connect_result =
  Unreachable string "join_step list"
| Connected "join_step list" "string list"

text \<open>
  The loop over \<^verbatim>\<open>tables[1:]\<close>: \<open>Unreachable t all_paths\<close> is the early return for the
  target \<open>t\<close>, \<open>Connected all_paths joined_tables\<close> the state at the end of the loop.
\<close>

fun connect_targets ::
  "graph \<Rightarrow> (string list \<Rightarrow> string list) \<Rightarrow> string list \<Rightarrow> join_step list \<Rightarrow> string list
     \<Rightarrow> error + connect_result" where
  "connect_targets g iter [] all_paths joined_tables = Inr (Connected all_paths joined_tables)"
| "connect_targets g iter (target_table # rest) all_paths joined_tables =
     (case try_joined g target_table (iter joined_tables) None of
        Inl e \<Rightarrow> Inl e
      | Inr p \<Rightarrow>
          (if \<not> truthy p then Inr (Unreachable target_table all_paths)
           else
             (case p of
                None \<Rightarrow> Inr (Unreachable target_table all_paths)
              | Some steps \<Rightarrow>
                  connect_targets g iter rest (all_paths @ steps)
                    (fold set_add (map step_to steps) joined_tables))))"

type_synonym join_key = "string \<times> string \<times> string \<times> string"

definition join_key_of :: "join_step \<Rightarrow> join_key" where
  "join_key_of step =
     (step_from step, step_to step, step_from_column step, step_to_column step)"

text \<open>The loop that fills \<^verbatim>\<open>unique_joins\<close> and \<^verbatim>\<open>seen_joins\<close>.\<close>

fun unique_loop :: "join_step list \<Rightarrow> join_step list \<Rightarrow> join_key set \<Rightarrow> join_step list" where
  "unique_loop [] unique_joins seen_joins = unique_joins"
| "unique_loop (step # rest) unique_joins seen_joins =
     (if join_key_of step \<notin> seen_joins
      then unique_loop rest (unique_joins @ [step]) (insert (join_key_of step) seen_joins)
      else unique_loop rest unique_joins seen_joins)"

definition render_query :: "string list \<Rightarrow> bool \<Rightarrow> join_step list \<Rightarrow> string" where
  "render_query tables select_all unique_joins =
     (let select_clause =
            (if select_all then ''SELECT *''
             else ''SELECT'' @ [CHR 0x0A] @ ''    '' @
                  str_join ('','' @ [CHR 0x0A] @ ''    '') (map (\<lambda>t. t @ ''.*'') tables));
          sql_parts = [select_clause, ''FROM '' @ hd tables] @ map join_line unique_joins
      in str_join [CHR 0x0A] sql_parts)"

text \<open>
  \<^verbatim>\<open>generate_join_query\<close> after the graph is built; \<open>tables\<close> has at least two
  members there, so \<^verbatim>\<open>tables[0]\<close> and \<^verbatim>\<open>tables[1:]\<close> are its head and tail.
\<close>

definition join_query_on_graph ::
  "graph \<Rightarrow> (string list \<Rightarrow> string list) \<Rightarrow> string list \<Rightarrow> bool \<Rightarrow> error + join_query" where
  "join_query_on_graph g iter tables select_all =
     (let base_table = hd tables in
      case connect_targets g iter (tl tables) [] [base_table] of
        Inl e \<Rightarrow> Inl e
      | Inr (Unreachable target_table all_paths) \<Rightarrow>
          Inr \<lparr> query_success = False, query_sql = None,
                query_explanation =
                  ''Cannot find path from '' @ base_table @ '' to '' @ target_table,
                query_paths = all_paths \<rparr>
      | Inr (Connected all_paths joined_tables) \<Rightarrow>
          (let unique_joins = unique_loop all_paths [] {} in
           Inr \<lparr> query_success = True,
                 query_sql = Some (render_query tables select_all unique_joins),
                 query_explanation =
                   ''Generated JOIN connecting '' @ str_nat (length tables) @
                   '' tables using '' @ str_nat (length unique_joins) @ '' relationships'',
                 query_paths = unique_joins \<rparr>))"

definition generate_join_query ::
  "(string list \<Rightarrow> string list) \<Rightarrow> connection \<Rightarrow> string list \<Rightarrow> string \<Rightarrow> bool
     \<Rightarrow> error + join_query" where
  "generate_join_query iter conn tables schema select_all =
     (if length tables < 2 then
        Inr \<lparr> query_success = False, query_sql = None,
              query_explanation = ''Need at least 2 tables to generate JOIN'',
              query_paths = [] \<rparr>
      else join_query_on_graph (build_relationship_graph conn schema) iter tables select_all)"


section \<open>Notions for the properties, and example schemas\<close>

text \<open>The list stored under a key of a dictionary of lists, empty for a missing key.\<close>

definition edges_of :: "(string \<times> 'v list) list \<Rightarrow> string \<Rightarrow> 'v list" where
  "edges_of d k = (case map_of d k of None \<Rightarrow> [] | Some vs \<Rightarrow> vs)"

text \<open>The two foreign keys of the order example, and a connection that returns them.\<close>

definition demo_fks :: "foreign_key list" where
  "demo_fks =
     [\<lparr> constraint_name = ''fk_orders_customer'', from_table = ''orders'',
        from_column = ''customer_id'', to_table = ''customers'', to_column = ''id'',
        on_update = ''NO ACTION'', on_delete = ''NO ACTION'' \<rparr>,
      \<lparr> constraint_name = ''fk_items_order'', from_table = ''order_items'',
        from_column = ''order_id'', to_table = ''orders'', to_column = ''id'',
        on_update = ''NO ACTION'', on_delete = ''CASCADE'' \<rparr>]"

definition demo_conn :: connection where
  "demo_conn = \<lparr> fk_rows = (\<lambda>schema. demo_fks), column_count = (\<lambda>schema table. 3) \<rparr>"

text \<open>
  The junction example: \<open>order_products\<close> has three columns and two foreign keys, to
  \<open>orders\<close> and to \<open>products\<close>.
\<close>

definition junction_fks :: "foreign_key list" where
  "junction_fks =
     [\<lparr> constraint_name = ''fk_op_order'', from_table = ''order_products'',
        from_column = ''order_id'', to_table = ''orders'', to_column = ''id'',
        on_update = ''NO ACTION'', on_delete = ''CASCADE'' \<rparr>,
      \<lparr> constraint_name = ''fk_op_product'', from_table = ''order_products'',
        from_column = ''product_id'', to_table = ''products'', to_column = ''id'',
        on_update = ''NO ACTION'', on_delete = ''CASCADE'' \<rparr>]"

definition junction_conn :: connection where
  "junction_conn = \<lparr> fk_rows = (\<lambda>schema. junction_fks), column_count = (\<lambda>schema table. 3) \<rparr>"

text \<open>
  Notions used to state the properties of paths. \<open>linked s p\<close>: the steps of \<open>p\<close> start at
  \<open>s\<close> and each step starts where the step before it ends. \<open>path_end s p\<close>: the table
  where \<open>p\<close> ends when it starts at \<open>s\<close>. \<open>walk adj a k b\<close>: \<open>k\<close> entries of the
  adjacency lists lead from \<open>a\<close> to \<open>b\<close>.
\<close>

fun linked :: "string \<Rightarrow> join_step list \<Rightarrow> bool" where
  "linked s [] = True"
| "linked s (x # xs) = (step_from x = s \<and> linked (step_to x) xs)"

definition path_end :: "string \<Rightarrow> join_step list \<Rightarrow> string" where
  "path_end s p = (if p = [] then s else step_to (last p))"

fun walk :: "adjacency_map \<Rightarrow> string \<Rightarrow> nat \<Rightarrow> string \<Rightarrow> bool" where
  "walk adj a 0 b = (a = b)"
| "walk adj a (Suc k) b = (\<exists>e \<in> set (edges_of adj a). walk adj (edge_to e) k b)"

text \<open>Every entry of an adjacency list leads to a key of the dictionary.\<close>

definition closed_graph :: "adjacency_map \<Rightarrow> bool" where
  "closed_graph adj = (\<forall>(k, es) \<in> set adj. \<forall>e \<in> set es. map_of adj (edge_to e) \<noteq> None)"

text \<open>
  The invariant of a queue entry \<open>(t, p)\<close> of the search from \<open>start\<close>: \<open>p\<close> leads
  from \<open>start\<close> to \<open>t\<close>, reaches no table twice, and reaches visited tables only.
\<close>

definition entry_ok :: "string \<Rightarrow> string set \<Rightarrow> string \<times> join_step list \<Rightarrow> bool" where
  "entry_ok start visited entry =
     (case entry of (t, p) \<Rightarrow>
        linked start p \<and> path_end start p = t \<and> distinct (map step_to p) \<and>
        step_to ` set p \<subseteq> visited)"

text \<open>
  The invariant of the search from \<open>start\<close> at level \<open>n\<close>: the queue holds tables at
  level \<open>n\<close> followed by tables at level \<open>n + 1\<close>, each a visited key with a path no
  longer than any walk to it; every table within \<open>n\<close> entries of \<open>start\<close> is visited;
  and a visited table that is no longer in the queue has all its neighbours visited.
\<close>

definition bfs_inv :: "adjacency_map \<Rightarrow> string \<Rightarrow> nat \<Rightarrow> string set \<Rightarrow> bfs_queue \<Rightarrow> bool" where
  "bfs_inv adj start n visited queue \<longleftrightarrow>
     (\<forall>(t, p) \<in> set queue.
        map_of adj t \<noteq> None \<and> t \<in> visited \<and> (\<forall>j. walk adj start j t \<longrightarrow> length p \<le> j)) \<and>
     (\<exists>q1 q2. queue = q1 @ q2 \<and>
        (\<forall>(t, p) \<in> set q1. length p = n) \<and> (\<forall>(t, p) \<in> set q2. length p = Suc n)) \<and>
     (\<forall>x j. j \<le> n \<longrightarrow> walk adj start j x \<longrightarrow> x \<in> visited) \<and>
     (\<forall>w \<in> visited. w \<in> fst ` set queue \<or> (\<forall>e \<in> set (edges_of adj w). edge_to e \<in> visited))"

text \<open>
  A schema with two routes from \<open>order_items\<close> to \<open>customers\<close>: through \<open>orders\<close>, and
  directly.
\<close>

definition triangle_fks :: "foreign_key list" where
  "triangle_fks =
     [\<lparr> constraint_name = ''fk_items_order'', from_table = ''order_items'',
        from_column = ''order_id'', to_table = ''orders'', to_column = ''id'',
        on_update = ''NO ACTION'', on_delete = ''CASCADE'' \<rparr>,
      \<lparr> constraint_name = ''fk_orders_customer'', from_table = ''orders'',
        from_column = ''customer_id'', to_table = ''customers'', to_column = ''id'',
        on_update = ''NO ACTION'', on_delete = ''NO ACTION'' \<rparr>,
      \<lparr> constraint_name = ''fk_items_customer'', from_table = ''order_items'',
        from_column = ''customer_id'', to_table = ''customers'', to_column = ''id'',
        on_update = ''NO ACTION'', on_delete = ''NO ACTION'' \<rparr>]"

definition triangle_conn :: connection where
  "triangle_conn = \<lparr> fk_rows = (\<lambda>schema. triangle_fks), column_count = (\<lambda>schema table. 5) \<rparr>"

section \<open>Properties\<close>

lemma map_of_dict_append:
  "map_of (dict_append k v d) k' =
     (if k' = k then Some (edges_of d k @ [v]) else map_of d k')"
  by (simp add: dict_append_def edges_of_def update_conv)

lemma edges_of_dict_append:
  "edges_of (dict_append k v d) k' =
     (if k' = k then edges_of d k @ [v] else edges_of d k')"
  by (simp add: edges_of_def map_of_dict_append)

lemma map_of_edges_of: "map_of d k = Some vs \<Longrightarrow> edges_of d k = vs"
  by (simp add: edges_of_def)

lemma edges_of_mem_key: "v \<in> set (edges_of d k) \<Longrightarrow> map_of d k = Some (edges_of d k)"
  by (cases "map_of d k") (simp_all add: edges_of_def)

subsection \<open>The graph builder\<close>

lemma build_adjacency_keeps:
  "e \<in> set (edges_of adj k) \<Longrightarrow> e \<in> set (edges_of (build_adjacency fks adj) k)"
proof (induction fks arbitrary: adj)
  case Nil
  then show ?case by simp
next
  case (Cons a fks)
  from Cons.prems have "e \<in> set (edges_of
          (dict_append (to_table a) (reverse_edge a)
             (dict_append (from_table a) (forward_edge a) adj)) k)"
    by (auto simp: edges_of_dict_append)
  then show ?case using Cons.IH by simp
qed

lemma build_adjacency_forward:
  "fk \<in> set fks \<Longrightarrow>
   forward_edge fk \<in> set (edges_of (build_adjacency fks adj) (from_table fk))"
proof (induction fks arbitrary: adj)
  case Nil
  then show ?case by simp
next
  case (Cons a fks)
  show ?case
  proof (cases "fk = a")
    case True
    have "forward_edge a \<in> set (edges_of
            (dict_append (to_table a) (reverse_edge a)
               (dict_append (from_table a) (forward_edge a) adj)) (from_table a))"
      by (simp add: edges_of_dict_append)
    then show ?thesis using True by (simp add: build_adjacency_keeps)
  next
    case False
    with Cons show ?thesis by simp
  qed
qed

lemma build_adjacency_reverse:
  "fk \<in> set fks \<Longrightarrow>
   reverse_edge fk \<in> set (edges_of (build_adjacency fks adj) (to_table fk))"
proof (induction fks arbitrary: adj)
  case Nil
  then show ?case by simp
next
  case (Cons a fks)
  show ?case
  proof (cases "fk = a")
    case True
    have "reverse_edge a \<in> set (edges_of
            (dict_append (to_table a) (reverse_edge a)
               (dict_append (from_table a) (forward_edge a) adj)) (to_table a))"
      by (simp add: edges_of_dict_append)
    then show ?thesis using True by (simp add: build_adjacency_keeps)
  next
    case False
    with Cons show ?thesis by simp
  qed
qed

lemma adjacency_build [simp]:
  "adjacency (build_relationship_graph conn schema) =
     build_adjacency (get_foreign_keys conn schema) []"
  by (simp add: build_relationship_graph_def Let_def)

text \<open>
  C2. Every foreign key of the list, from table A to table B, has in the built graph an
  entry towards B in the adjacency list of A and an entry towards A, flagged as reverse,
  in the adjacency list of B, both with the constraint name of the foreign key.
\<close>

theorem build_graph_symmetry:
  assumes "fk \<in> set (get_foreign_keys conn schema)"
  shows "(\<exists>es e. map_of (adjacency (build_relationship_graph conn schema)) (from_table fk) = Some es
            \<and> e \<in> set es \<and> edge_to e = to_table fk
            \<and> edge_constraint e = constraint_name fk) \<and>
         (\<exists>es e. map_of (adjacency (build_relationship_graph conn schema)) (to_table fk) = Some es
            \<and> e \<in> set es \<and> edge_to e = from_table fk \<and> edge_reverse e = Some True
            \<and> edge_constraint e = constraint_name fk)"
proof
  let ?adj = "build_adjacency (get_foreign_keys conn schema) []"
  have f: "forward_edge fk \<in> set (edges_of ?adj (from_table fk))"
    using assms by (rule build_adjacency_forward)
  from edges_of_mem_key [OF f] f
  show "\<exists>es e. map_of (adjacency (build_relationship_graph conn schema)) (from_table fk) = Some es
            \<and> e \<in> set es \<and> edge_to e = to_table fk
            \<and> edge_constraint e = constraint_name fk"
    by (auto simp: forward_edge_def intro!: exI [of _ "forward_edge fk"])
  have r: "reverse_edge fk \<in> set (edges_of ?adj (to_table fk))"
    using assms by (rule build_adjacency_reverse)
  from edges_of_mem_key [OF r] r
  show "\<exists>es e. map_of (adjacency (build_relationship_graph conn schema)) (to_table fk) = Some es
            \<and> e \<in> set es \<and> edge_to e = from_table fk \<and> edge_reverse e = Some True
            \<and> edge_constraint e = constraint_name fk"
    by (auto simp: reverse_edge_def intro!: exI [of _ "reverse_edge fk"])
qed

lemma demo_adjacency:
  "build_adjacency demo_fks [] =
     [(''orders'',
        [\<lparr> edge_to = ''customers'', edge_from_column = ''customer_id'', edge_to_column = ''id'',
           edge_constraint = ''fk_orders_customer'', edge_reverse = None \<rparr>,
         \<lparr> edge_to = ''order_items'', edge_from_column = ''id'', edge_to_column = ''order_id'',
           edge_constraint = ''fk_items_order'', edge_reverse = Some True \<rparr>]),
      (''customers'',
        [\<lparr> edge_to = ''orders'', edge_from_column = ''id'', edge_to_column = ''customer_id'',
           edge_constraint = ''fk_orders_customer'', edge_reverse = Some True \<rparr>]),
      (''order_items'',
        [\<lparr> edge_to = ''orders'', edge_from_column = ''order_id'', edge_to_column = ''id'',
           edge_constraint = ''fk_items_order'', edge_reverse = None \<rparr>])]"
  by (simp add: demo_fks_def dict_append_def forward_edge_def reverse_edge_def)


theorem build_graph_symmetry_witness:
  "hd demo_fks \<in> set (get_foreign_keys demo_conn ''public'') \<and>
   (\<exists>es e. map_of (adjacency (build_relationship_graph demo_conn ''public'')) ''orders'' = Some es
      \<and> e \<in> set es \<and> edge_to e = ''customers''
      \<and> edge_constraint e = ''fk_orders_customer'') \<and>
   (\<exists>es e. map_of (adjacency (build_relationship_graph demo_conn ''public'')) ''customers'' = Some es
      \<and> e \<in> set es \<and> edge_to e = ''orders'' \<and> edge_reverse e = Some True
      \<and> edge_constraint e = ''fk_orders_customer'')"
proof -
  have h: "hd demo_fks \<in> set (get_foreign_keys demo_conn ''public'')"
    by (simp add: get_foreign_keys_def demo_conn_def demo_fks_def)
  from build_graph_symmetry [OF h] h show ?thesis
    by (simp add: demo_fks_def)
qed


subsection \<open>The order example\<close>

lemma demo_get_foreign_keys: "get_foreign_keys demo_conn schema = demo_fks"
  by (simp add: get_foreign_keys_def demo_conn_def)

lemma demo_same_table:
  "find_path_between_tables (build_relationship_graph demo_conn ''public'') ''orders'' ''orders''
     = Inr (Some [])"
  by (simp add: find_path_between_tables_def demo_get_foreign_keys demo_adjacency)

lemma demo_two_steps:
  "find_path_between_tables (build_relationship_graph demo_conn ''public'')
     ''order_items'' ''customers'' =
   Inr (Some
     [\<lparr> step_from = ''order_items'', step_to = ''orders'', step_from_column = ''order_id'',
        step_to_column = ''id'', step_constraint = ''fk_items_order'', step_reverse = False \<rparr>,
      \<lparr> step_from = ''orders'', step_to = ''customers'', step_from_column = ''customer_id'',
        step_to_column = ''id'', step_constraint = ''fk_orders_customer'',
        step_reverse = False \<rparr>])"
  by (simp add: find_path_between_tables_def demo_get_foreign_keys demo_adjacency
      make_step_def Let_def)

lemma demo_one_step:
  "find_path_between_tables (build_relationship_graph demo_conn ''public'')
     ''orders'' ''customers'' =
   Inr (Some
     [\<lparr> step_from = ''orders'', step_to = ''customers'', step_from_column = ''customer_id'',
        step_to_column = ''id'', step_constraint = ''fk_orders_customer'',
        step_reverse = False \<rparr>])"
  by (simp add: find_path_between_tables_def demo_get_foreign_keys demo_adjacency
      make_step_def Let_def)

subsection \<open>Same-table paths\<close>

text \<open>
  C3, as the code has it. The test that both tables are keys of the adjacency dictionary
  comes first: a table that is a key has the empty path to itself, a table that is not a
  key (one without foreign keys in either direction) has no path to itself.
\<close>

theorem same_table_path:
  "(map_of (adjacency g) x \<noteq> None \<longrightarrow> find_path_between_tables g x x = Inr (Some [])) \<and>
   (map_of (adjacency g) x = None \<longrightarrow> find_path_between_tables g x x = Inr None)"
  by (simp add: find_path_between_tables_def)

theorem same_table_path_witness:
  "map_of (adjacency (build_relationship_graph demo_conn ''public'')) ''orders'' \<noteq> None \<and>
   find_path_between_tables (build_relationship_graph demo_conn ''public'')
     ''orders'' ''orders'' = Inr (Some []) \<and>
   map_of (adjacency (build_relationship_graph demo_conn ''public'')) ''products'' = None \<and>
   find_path_between_tables (build_relationship_graph demo_conn ''public'')
     ''products'' ''products'' = Inr None"
proof -
  have a: "map_of (adjacency (build_relationship_graph demo_conn ''public'')) ''orders'' \<noteq> None"
    by (simp add: demo_get_foreign_keys demo_adjacency)
  have b: "map_of (adjacency (build_relationship_graph demo_conn ''public'')) ''products'' = None"
    by (simp add: demo_get_foreign_keys demo_adjacency)
  from a b
    same_table_path [of "build_relationship_graph demo_conn ''public''" "''orders''"]
    same_table_path [of "build_relationship_graph demo_conn ''public''" "''products''"]
  show ?thesis by blast
qed

text \<open>
  The claim as the specification states it fails for a table without foreign keys.
\<close>

theorem same_table_path_counterexample:
  "find_path_between_tables (build_relationship_graph demo_conn ''public'')
     ''products'' ''products'' = Inr None \<and>
   find_path_between_tables (build_relationship_graph demo_conn ''public'')
     ''products'' ''products'' \<noteq> Inr (Some [])"
  by (simp add: find_path_between_tables_def demo_get_foreign_keys demo_adjacency)

subsection \<open>Pairwise suggestion\<close>

lemma suggest_fails_iff:
  "(\<exists>r. suggest_join_on_graph g a b = Inr r \<and> \<not> suggest_success r) \<longleftrightarrow>
   find_path_between_tables g a b = Inr None \<or> find_path_between_tables g a b = Inr (Some [])"
  by (auto simp: suggest_join_on_graph_def no_relationship_def Let_def
      split: sum.splits option.splits list.splits)

lemma suggest_not_found:
  "find_path_between_tables g a b = Inr None \<Longrightarrow>
   suggest_join_on_graph g a b = Inr (no_relationship a b)"
  by (simp add: suggest_join_on_graph_def)

text \<open>
  C4 at the input on which the code departs from it: the path finder answers with the
  empty path for a table and itself, and the suggestion reports that no relationship
  was found.
\<close>

theorem suggest_same_table_not_found:
  "find_path_between_tables (build_relationship_graph demo_conn ''public'')
     ''orders'' ''orders'' = Inr (Some []) \<and>
   suggest_join_pattern demo_conn ''orders'' ''orders'' ''public'' =
     Inr \<lparr> suggest_success = False, suggest_path = None, suggest_sql = None,
           suggest_explanation =
             ''No foreign key relationship found between '' @ [CHR 0x27] @ ''orders'' @
             [CHR 0x27] @ '' and '' @ [CHR 0x27] @ ''orders'' @ [CHR 0x27] \<rparr>"
  by (simp add: demo_same_table suggest_join_pattern_def suggest_join_on_graph_def
      no_relationship_def)

lemma str_join_Cons: "str_join sep (x # xs) = x @ concat (map (\<lambda>y. sep @ y) xs)"
  by (induction xs arbitrary: x) simp_all

text \<open>
  C5. When the suggestion succeeds, its path is the non-empty path of the path finder and
  its SQL is the line \<open>FROM\<close> with the first step's source table, followed by one line
  \<open>JOIN ... ON ...\<close> for each step, in the order of the path; and for the two foreign
  keys of the order example the SQL from \<open>order_items\<close> to \<open>customers\<close> is the text of
  the specification.
\<close>

theorem suggest_sql_rendering:
  "(\<forall>conn schema a b r.
      suggest_join_pattern conn a b schema = Inr r \<and> suggest_success r \<longrightarrow>
      (\<exists>p. p \<noteq> [] \<and>
         find_path_between_tables (build_relationship_graph conn schema) a b = Inr (Some p) \<and>
         suggest_path r = Some p \<and>
         suggest_sql r = Some
           (''FROM '' @ step_from (hd p) @
            concat (map (\<lambda>s. [CHR 0x0A] @ ''JOIN '' @ step_to s @ '' ON '' @
                           step_from s @ ''.'' @ step_from_column s @ '' = '' @
                           step_to s @ ''.'' @ step_to_column s) p)))) \<and>
   (\<exists>r s1 s2.
      suggest_join_pattern demo_conn ''order_items'' ''customers'' ''public'' = Inr r \<and>
      suggest_success r \<and> suggest_path r = Some [s1, s2] \<and>
      step_from s1 = ''order_items'' \<and> step_to s1 = ''orders'' \<and>
      step_from s2 = ''orders'' \<and> step_to s2 = ''customers'' \<and>
      suggest_sql r = Some
        (''FROM order_items'' @ [CHR 0x0A] @
         ''JOIN orders ON order_items.order_id = orders.id'' @ [CHR 0x0A] @
         ''JOIN customers ON orders.customer_id = customers.id''))"
proof (intro conjI allI impI)
  fix conn schema a b r
  assume h: "suggest_join_pattern conn a b schema = Inr r \<and> suggest_success r"
  let ?g = "build_relationship_graph conn schema"
  from h obtain first others where
    p: "find_path_between_tables ?g a b = Inr (Some (first # others))"
    by (auto simp: suggest_join_pattern_def suggest_join_on_graph_def no_relationship_def
        split: sum.splits option.splits list.splits)
  with h have "suggest_path r = Some (first # others)"
    and "suggest_sql r = Some (str_join [CHR 0x0A]
           ([''FROM '' @ step_from first] @ map join_line (first # others)))"
    by (auto simp: suggest_join_pattern_def suggest_join_on_graph_def Let_def)
  with p show "\<exists>p. p \<noteq> [] \<and>
         find_path_between_tables ?g a b = Inr (Some p) \<and>
         suggest_path r = Some p \<and>
         suggest_sql r = Some
           (''FROM '' @ step_from (hd p) @
            concat (map (\<lambda>s. [CHR 0x0A] @ ''JOIN '' @ step_to s @ '' ON '' @
                           step_from s @ ''.'' @ step_from_column s @ '' = '' @
                           step_to s @ ''.'' @ step_to_column s) p))"
    by (intro exI [of _ "first # others"])
       (simp add: str_join_Cons join_line_def comp_def del: str_join.simps)
next
  show "\<exists>r s1 s2.
      suggest_join_pattern demo_conn ''order_items'' ''customers'' ''public'' = Inr r \<and>
      suggest_success r \<and> suggest_path r = Some [s1, s2] \<and>
      step_from s1 = ''order_items'' \<and> step_to s1 = ''orders'' \<and>
      step_from s2 = ''orders'' \<and> step_to s2 = ''customers'' \<and>
      suggest_sql r = Some
        (''FROM order_items'' @ [CHR 0x0A] @
         ''JOIN orders ON order_items.order_id = orders.id'' @ [CHR 0x0A] @
         ''JOIN customers ON orders.customer_id = customers.id'')"
    by (simp add: suggest_join_pattern_def suggest_join_on_graph_def demo_two_steps
        join_line_def Let_def)
qed

theorem suggest_sql_rendering_witness:
  "\<exists>r p. suggest_join_pattern demo_conn ''orders'' ''customers'' ''public'' = Inr r \<and>
     suggest_success r \<and> suggest_path r = Some p \<and> length p = 1 \<and>
     suggest_sql r = Some
       (''FROM orders'' @ [CHR 0x0A] @
        ''JOIN customers ON orders.customer_id = customers.id'')"
proof -
  obtain r where r: "suggest_join_pattern demo_conn ''orders'' ''customers'' ''public'' = Inr r"
    and s: "suggest_success r"
    by (simp add: suggest_join_pattern_def suggest_join_on_graph_def demo_one_step Let_def)
  from suggest_sql_rendering r s obtain p where
    "find_path_between_tables (build_relationship_graph demo_conn ''public'')
       ''orders'' ''customers'' = Inr (Some p)"
    "suggest_path r = Some p"
    "suggest_sql r = Some
           (''FROM '' @ step_from (hd p) @
            concat (map (\<lambda>s. [CHR 0x0A] @ ''JOIN '' @ step_to s @ '' ON '' @
                           step_from s @ ''.'' @ step_from_column s @ '' = '' @
                           step_to s @ ''.'' @ step_to_column s) p))"
    by blast
  with r s show ?thesis
    by (auto simp: demo_one_step)
qed


subsection \<open>Junction tables\<close>

lemma distinct_dict_append:
  "distinct (map fst d) \<Longrightarrow> distinct (map fst (dict_append k v d))"
  by (simp add: dict_append_def distinct_update)

lemma distinct_group_by_table:
  "distinct (map fst d) \<Longrightarrow> distinct (map fst (group_by_table fks d))"
  by (induction fks arbitrary: d) (simp_all add: distinct_dict_append)

lemma map_of_group_by_table:
  "map_of (group_by_table fks d) t =
     (if map_of d t = None \<and> filter (\<lambda>fk. from_table fk = t) fks = [] then None
      else Some (edges_of d t @ filter (\<lambda>fk. from_table fk = t) fks))"
proof (induction fks arbitrary: d)
  case Nil
  show ?case by (cases "map_of d t") (simp_all add: edges_of_def)
next
  case (Cons a fks)
  show ?case
    by (simp add: Cons.IH map_of_dict_append edges_of_dict_append)
qed

lemma group_by_table_entry:
  "(t, fs) \<in> set (group_by_table fks []) \<longleftrightarrow>
     fs = filter (\<lambda>fk. from_table fk = t) fks \<and> fs \<noteq> []"
proof -
  have "distinct (map fst (group_by_table fks []))"
    by (rule distinct_group_by_table) simp
  then have "(t, fs) \<in> set (group_by_table fks []) \<longleftrightarrow>
             map_of (group_by_table fks []) t = Some fs"
    by simp
  then show ?thesis
    by (auto simp: map_of_group_by_table edges_of_def)
qed

lemma junction_loop_set:
  "c \<in> set (junction_loop conn schema entries m2m) \<longleftrightarrow>
     c \<in> set m2m \<or>
     (\<exists>(t, fks) \<in> set entries.
        length fks = 2 \<and> column_count conn schema t \<le> 4 \<and>
        c = \<lparr> junction_table = t,
              table1 = to_table (fks ! 0), table1_column = to_column (fks ! 0),
              table2 = to_table (fks ! 1), table2_column = to_column (fks ! 1),
              junction_column1 = from_column (fks ! 0),
              junction_column2 = from_column (fks ! 1) \<rparr>)"
proof (induction entries arbitrary: m2m)
  case Nil
  show ?case by simp
next
  case (Cons entry entries)
  obtain t fks where entry: "entry = (t, fks)" by (cases entry)
  show ?case unfolding entry
    by (simp add: Cons.IH) blast
qed

text \<open>
  C7. A table has a junction candidate exactly when exactly two foreign keys of the list
  start at it and its column count is at most 4; the candidate's \<open>table1\<close> is the target
  of the first of the two, \<open>table2\<close> the target of the second.
\<close>

theorem junction_classification:
  "((\<exists>c \<in> set (detect_many_to_many conn schema). junction_table c = t) \<longleftrightarrow>
      length (filter (\<lambda>fk. from_table fk = t) (get_foreign_keys conn schema)) = 2 \<and>
      column_count conn schema t \<le> 4) \<and>
   (\<forall>c \<in> set (detect_many_to_many conn schema). junction_table c = t \<longrightarrow>
      table1 c = to_table (filter (\<lambda>fk. from_table fk = t) (get_foreign_keys conn schema) ! 0) \<and>
      table2 c = to_table (filter (\<lambda>fk. from_table fk = t) (get_foreign_keys conn schema) ! 1))"
proof -
  let ?own = "filter (\<lambda>fk. from_table fk = t) (get_foreign_keys conn schema)"
  have mem: "c \<in> set (detect_many_to_many conn schema) \<and> junction_table c = t \<longleftrightarrow>
        length ?own = 2 \<and> column_count conn schema t \<le> 4 \<and>
        c = \<lparr> junction_table = t,
              table1 = to_table (?own ! 0), table1_column = to_column (?own ! 0),
              table2 = to_table (?own ! 1), table2_column = to_column (?own ! 1),
              junction_column1 = from_column (?own ! 0),
              junction_column2 = from_column (?own ! 1) \<rparr>" for c
  proof
    assume "c \<in> set (detect_many_to_many conn schema) \<and> junction_table c = t"
    then obtain t' fs where e: "(t', fs) \<in> set (group_by_table (get_foreign_keys conn schema) [])"
      and l: "length fs = 2" and cc: "column_count conn schema t' \<le> 4"
      and c: "c = \<lparr> junction_table = t',
              table1 = to_table (fs ! 0), table1_column = to_column (fs ! 0),
              table2 = to_table (fs ! 1), table2_column = to_column (fs ! 1),
              junction_column1 = from_column (fs ! 0),
              junction_column2 = from_column (fs ! 1) \<rparr>"
      and t: "junction_table c = t"
      by (auto simp: detect_many_to_many_def junction_loop_set)
    from c t have "t' = t" by simp
    moreover from e have "fs = filter (\<lambda>fk. from_table fk = t') (get_foreign_keys conn schema)"
      by (simp add: group_by_table_entry)
    ultimately show "length ?own = 2 \<and> column_count conn schema t \<le> 4 \<and>
        c = \<lparr> junction_table = t,
              table1 = to_table (?own ! 0), table1_column = to_column (?own ! 0),
              table2 = to_table (?own ! 1), table2_column = to_column (?own ! 1),
              junction_column1 = from_column (?own ! 0),
              junction_column2 = from_column (?own ! 1) \<rparr>"
      using l cc c by simp
  next
    assume r: "length ?own = 2 \<and> column_count conn schema t \<le> 4 \<and>
        c = \<lparr> junction_table = t,
              table1 = to_table (?own ! 0), table1_column = to_column (?own ! 0),
              table2 = to_table (?own ! 1), table2_column = to_column (?own ! 1),
              junction_column1 = from_column (?own ! 0),
              junction_column2 = from_column (?own ! 1) \<rparr>"
    then have "?own \<noteq> []" by auto
    then have "(t, ?own) \<in> set (group_by_table (get_foreign_keys conn schema) [])"
      by (simp add: group_by_table_entry)
    with r have "c \<in> set (detect_many_to_many conn schema)"
      unfolding detect_many_to_many_def junction_loop_set by blast
    with r show "c \<in> set (detect_many_to_many conn schema) \<and> junction_table c = t"
      by simp
  qed
  show ?thesis
  proof (rule conjI)
    show "(\<exists>c \<in> set (detect_many_to_many conn schema). junction_table c = t) \<longleftrightarrow>
      length ?own = 2 \<and> column_count conn schema t \<le> 4"
      using mem by blast
  next
    have "table1 c = to_table (?own ! 0) \<and> table2 c = to_table (?own ! 1)"
      if "c \<in> set (detect_many_to_many conn schema)" "junction_table c = t" for c
    proof -
    from that mem [of c] have "c = \<lparr> junction_table = t,
              table1 = to_table (?own ! 0), table1_column = to_column (?own ! 0),
              table2 = to_table (?own ! 1), table2_column = to_column (?own ! 1),
              junction_column1 = from_column (?own ! 0),
              junction_column2 = from_column (?own ! 1) \<rparr>"
      by blast
    then show ?thesis
      by (metis junction.select_convs(2) junction.select_convs(4))
    qed
    then show "\<forall>c \<in> set (detect_many_to_many conn schema). junction_table c = t \<longrightarrow>
      table1 c = to_table (?own ! 0) \<and> table2 c = to_table (?own ! 1)"
      by blast
  qed
qed

theorem junction_classification_witness:
  "length (filter (\<lambda>fk. from_table fk = ''order_products'')
             (get_foreign_keys junction_conn ''public'')) = 2 \<and>
   column_count junction_conn ''public'' ''order_products'' \<le> 4 \<and>
   (\<exists>c \<in> set (detect_many_to_many junction_conn ''public'').
      junction_table c = ''order_products'' \<and> table1 c = ''orders'' \<and> table2 c = ''products'')"
proof -
  have own: "filter (\<lambda>fk. from_table fk = ''order_products'')
               (get_foreign_keys junction_conn ''public'') = junction_fks"
    by (simp add: get_foreign_keys_def junction_conn_def junction_fks_def)
  have cols: "column_count junction_conn ''public'' ''order_products'' \<le> 4"
    by (simp add: junction_conn_def)
  have len: "length junction_fks = 2"
    by (simp add: junction_fks_def)
  from junction_classification [of junction_conn "''public''" "''order_products''"]
  show ?thesis
    unfolding own using cols len by (auto simp: junction_fks_def)
qed


subsection \<open>The inner loop of the search\<close>

lemma visit_edges_Inl:
  "visit_edges end_table cur p es visited queue = Inl new_path \<Longrightarrow>
   \<exists>e \<in> set es. edge_to e = end_table \<and> end_table \<notin> visited \<and>
     new_path = p @ [make_step cur e]"
proof (induction es arbitrary: visited queue)
  case Nil
  then show ?case by simp
next
  case (Cons e es)
  show ?case
  proof (cases "edge_to e \<in> visited")
    case True
    with Cons.prems have "visit_edges end_table cur p es visited queue = Inl new_path"
      by simp
    from Cons.IH [OF this] show ?thesis by auto
  next
    case False
    show ?thesis
    proof (cases "edge_to e = end_table")
      case True
      with False Cons.prems show ?thesis by (auto simp: Let_def)
    next
      case ne: False
      with False Cons.prems have
        "visit_edges end_table cur p es (insert (edge_to e) visited)
           (queue @ [(edge_to e, p @ [make_step cur e])]) = Inl new_path"
        by (simp add: Let_def)
      from Cons.IH [OF this] show ?thesis by auto
    qed
  qed
qed

lemma visit_edges_Inr:
  "visit_edges end_table cur p es visited queue = Inr (visited', queue') \<Longrightarrow>
   visited' = visited \<union> edge_to ` set es \<and>
   (end_table \<in> visited' \<longrightarrow> end_table \<in> visited) \<and>
   (\<exists>new. queue' = queue @ new \<and>
      (\<forall>(t, q) \<in> set new. t \<notin> visited \<and> t \<in> visited' \<and>
         (\<exists>e \<in> set es. t = edge_to e \<and> q = p @ [make_step cur e])) \<and>
      (\<forall>t \<in> visited' - visited. t \<in> fst ` set new))"
proof (induction es arbitrary: visited queue)
  case Nil
  then show ?case by simp
next
  case (Cons e es)
  show ?case
  proof (cases "edge_to e \<in> visited")
    case True
    with Cons.prems have "visit_edges end_table cur p es visited queue = Inr (visited', queue')"
      by simp
    from Cons.IH [OF this] True show ?thesis
      by (auto simp: insert_absorb)
  next
    case False
    with Cons.prems have ne: "edge_to e \<noteq> end_table"
      by (auto simp: Let_def split: if_splits)
    let ?v = "insert (edge_to e) visited"
    let ?entry = "(edge_to e, p @ [make_step cur e])"
    from False ne Cons.prems have
      "visit_edges end_table cur p es ?v (queue @ [?entry]) = Inr (visited', queue')"
      by (simp add: Let_def)
    from Cons.IH [OF this] obtain new where
      v: "visited' = ?v \<union> edge_to ` set es"
      and e: "end_table \<in> visited' \<longrightarrow> end_table \<in> ?v"
      and q: "queue' = (queue @ [?entry]) @ new"
      and n: "\<forall>(t, q) \<in> set new. t \<notin> ?v \<and> t \<in> visited' \<and>
               (\<exists>e \<in> set es. t = edge_to e \<and> q = p @ [make_step cur e])"
      and c: "\<forall>t \<in> visited' - ?v. t \<in> fst ` set new"
      by blast
    have "visited' = visited \<union> edge_to ` set (e # es)"
      using v by auto
    moreover have "end_table \<in> visited' \<longrightarrow> end_table \<in> visited"
      using e ne by auto
    moreover have "queue' = queue @ (?entry # new)"
      using q by simp
    moreover have "\<forall>(t, q) \<in> set (?entry # new). t \<notin> visited \<and> t \<in> visited' \<and>
               (\<exists>e \<in> set (e # es). t = edge_to e \<and> q = p @ [make_step cur e])"
      using n False v by auto
    moreover have "\<forall>t \<in> visited' - visited. t \<in> fst ` set (?entry # new)"
      using c by auto
    ultimately show ?thesis by blast
  qed
qed

subsection \<open>Shape of the returned path\<close>

lemma linked_append:
  "linked s (p @ q) \<longleftrightarrow> linked s p \<and> linked (path_end s p) q"
  by (induction p arbitrary: s) (auto simp: path_end_def)

lemma path_end_snoc [simp]: "path_end s (p @ [x]) = step_to x"
  by (simp add: path_end_def)



lemma entry_ok_mono:
  "entry_ok start visited entry \<Longrightarrow> visited \<subseteq> visited' \<Longrightarrow> entry_ok start visited' entry"
  by (auto simp: entry_ok_def)

lemma entry_ok_extend:
  assumes "entry_ok start visited (cur, p)" and "edge_to e \<notin> visited"
    and "insert (edge_to e) visited \<subseteq> visited'"
  shows "entry_ok start visited' (edge_to e, p @ [make_step cur e])"
  using assms
  by (auto simp: entry_ok_def linked_append make_step_def)

lemma bfs_loop_shape:
  "\<forall>entry \<in> set queue. entry_ok start visited entry \<Longrightarrow>
   bfs_loop adj end_table visited queue = Inr (Some p) \<Longrightarrow>
   linked start p \<and> path_end start p = end_table \<and> distinct (map step_to p) \<and> p \<noteq> []"
proof (induction adj end_table visited queue rule: bfs_loop.induct)
  case (1 adj end_table visited)
  then show ?case by simp
next
  case (2 adj end_table visited cur path queue)
  from "2.prems"(1) have cur: "entry_ok start visited (cur, path)"
    and rest: "\<forall>entry \<in> set queue. entry_ok start visited entry"
    by simp_all
  from "2.prems"(2) obtain edges where edges: "map_of adj cur = Some edges"
    by (cases "map_of adj cur") simp_all
  show ?case
  proof (cases "visit_edges end_table cur path edges visited queue")
    case (Inl new_path)
    with "2.prems"(2) edges have "p = new_path" by simp
    with visit_edges_Inl [OF Inl] obtain e where
      e: "edge_to e = end_table" "end_table \<notin> visited" "p = path @ [make_step cur e]"
      by blast
    from entry_ok_extend [OF cur, of e "insert (edge_to e) visited"] e
    have "entry_ok start (insert end_table visited) (end_table, p)" by simp
    with e(3) show ?thesis by (auto simp: entry_ok_def)
  next
    case (Inr r)
    obtain visited' queue' where r: "r = (visited', queue')" by (cases r)
    from visit_edges_Inr [OF Inr [unfolded r]] obtain new where
      v: "visited' = visited \<union> edge_to ` set edges"
      and q: "queue' = queue @ new"
      and n: "\<forall>(t, q) \<in> set new. t \<notin> visited \<and> t \<in> visited' \<and>
               (\<exists>e \<in> set edges. t = edge_to e \<and> q = path @ [make_step cur e])"
      by blast
    have "entry_ok start visited' entry" if "entry \<in> set queue'" for entry
    proof (cases "entry \<in> set queue")
      case True
      with rest v show ?thesis by (auto intro: entry_ok_mono)
    next
      case False
      with that q have "entry \<in> set new" by simp
      with n obtain e where "fst entry \<notin> visited" "entry = (edge_to e, path @ [make_step cur e])"
        by (cases entry) auto
      with entry_ok_extend [OF cur, of e visited'] v n \<open>entry \<in> set new\<close>
      show ?thesis by auto
    qed
    then have inv: "\<forall>entry \<in> set queue'. entry_ok start visited' entry" by blast
    from "2.prems"(2) edges Inr r
    have "bfs_loop adj end_table visited' queue' = Inr (Some p)" by simp
    from "2.IH" [OF edges Inr r [symmetric] inv this] show ?thesis .
  qed
qed




subsection \<open>Connecting the requested tables\<close>

lemma find_path_ends:
  assumes "find_path_between_tables g start_table end_table = Inr (Some p)" and "p \<noteq> []"
  shows "step_to (last p) = end_table"
proof -
  from assms have "bfs_loop (adjacency g) end_table {start_table} [(start_table, [])]
                     = Inr (Some p)"
    by (auto simp: find_path_between_tables_def split: if_splits)
  moreover have "\<forall>entry \<in> set [(start_table, [])]. entry_ok start_table {start_table} entry"
    by (simp add: entry_ok_def path_end_def)
  ultimately have "path_end start_table p = end_table"
    using bfs_loop_shape by blast
  with assms(2) show ?thesis by (simp add: path_end_def)
qed

lemma try_joined_falsy:
  "\<forall>j \<in> set js. \<exists>q. find_path_between_tables g j t = Inr q \<and> \<not> truthy q \<Longrightarrow>
   \<not> truthy p \<Longrightarrow>
   \<exists>q. try_joined g t js p = Inr q \<and> \<not> truthy q"
  by (induction js arbitrary: p) auto

lemma try_joined_truthy:
  "try_joined g t js p = Inr q \<Longrightarrow> truthy q \<Longrightarrow> \<not> truthy p \<Longrightarrow>
   \<exists>j \<in> set js. find_path_between_tables g j t = Inr q"
  by (induction js arbitrary: p) (auto split: sum.splits if_splits)

lemma truthy_Some: "truthy p \<longleftrightarrow> (\<exists>steps. p = Some steps \<and> steps \<noteq> [])"
  by (cases p) (simp_all add: truthy_def)

lemma connect_targets_unreachable:
  "try_joined g t (iter joined) None = Inr q \<Longrightarrow> \<not> truthy q \<Longrightarrow>
   connect_targets g iter (t # rest) acc joined = Inr (Unreachable t acc)"
  by simp

lemma connect_targets_append:
  "connect_targets g iter (pre @ rest) acc joined =
     (case connect_targets g iter pre acc joined of
        Inl e \<Rightarrow> Inl e
      | Inr (Unreachable t a) \<Rightarrow> Inr (Unreachable t a)
      | Inr (Connected acc' joined') \<Rightarrow> connect_targets g iter rest acc' joined')"
proof (induction pre arbitrary: acc joined)
  case Nil
  show ?case by simp
next
  case (Cons t pre)
  show ?case
    by (simp add: Cons.IH split: sum.splits option.splits)
qed

lemma connect_targets_reaches:
  "connect_targets g iter ts acc joined = Inr (Connected all_paths joined') \<Longrightarrow>
   \<exists>ext. all_paths = acc @ ext \<and> (\<forall>t \<in> set ts. \<exists>s \<in> set ext. step_to s = t)"
proof (induction ts arbitrary: acc joined)
  case Nil
  then show ?case by simp
next
  case (Cons t ts)
  from Cons.prems obtain q where q: "try_joined g t (iter joined) None = Inr q"
    by (auto split: sum.splits)
  with Cons.prems have tq: "truthy q"
    by (auto split: if_splits)
  then obtain steps where steps: "q = Some steps" "steps \<noteq> []"
    by (auto simp: truthy_Some)
  from try_joined_truthy [OF q tq] obtain j where
    "find_path_between_tables g j t = Inr (Some steps)"
    by (auto simp: truthy_def steps)
  from find_path_ends [OF this steps(2)]
  have last: "step_to (last steps) = t" .
  from Cons.prems q tq steps have
    "connect_targets g iter ts (acc @ steps) (fold set_add (map step_to steps) joined)
       = Inr (Connected all_paths joined')"
    by simp
  from Cons.IH [OF this] obtain ext where
    ext: "all_paths = (acc @ steps) @ ext" "\<forall>t \<in> set ts. \<exists>s \<in> set ext. step_to s = t"
    by blast
  have "last steps \<in> set (steps @ ext)"
    using steps(2) by simp
  with last ext show ?case
    by (intro exI [of _ "steps @ ext"]) auto
qed


subsection \<open>Removing repeated joins\<close>

lemma find_append:
  "find P (xs @ ys) = (case find P xs of None \<Rightarrow> find P ys | Some x \<Rightarrow> Some x)"
  by (induction xs) simp_all

lemma find_None_keys: "find (\<lambda>x. f x = k) xs = None \<longleftrightarrow> k \<notin> f ` set xs"
  by (induction xs) auto

lemma first_keys_snoc:
  "rev (remdups (rev (ks @ [k]))) =
     (if k \<in> set ks then rev (remdups (rev ks)) else rev (remdups (rev ks)) @ [k])"
  by simp

lemma unique_loop_keys:
  "seen = join_key_of ` set done \<Longrightarrow>
   map join_key_of unique = rev (remdups (rev (map join_key_of done))) \<Longrightarrow>
   map join_key_of (unique_loop rest unique seen) =
     rev (remdups (rev (map join_key_of (done @ rest))))"
proof (induction rest arbitrary: unique seen "done")
  case Nil
  then show ?case by simp
next
  case (Cons step rest)
  let ?k = "join_key_of step"
  show ?case
  proof (cases "?k \<in> seen")
    case True
    have "map join_key_of (unique_loop rest unique seen) =
            rev (remdups (rev (map join_key_of ((done @ [step]) @ rest))))"
    proof (rule Cons.IH)
      show "seen = join_key_of ` set (done @ [step])"
        using True Cons.prems(1) by auto
      show "map join_key_of unique = rev (remdups (rev (map join_key_of (done @ [step]))))"
        using True Cons.prems by simp
    qed
    with True show ?thesis by simp
  next
    case False
    have "map join_key_of (unique_loop rest (unique @ [step]) (insert ?k seen)) =
            rev (remdups (rev (map join_key_of ((done @ [step]) @ rest))))"
    proof (rule Cons.IH)
      show "insert ?k seen = join_key_of ` set (done @ [step])"
        using Cons.prems(1) by auto
      show "map join_key_of (unique @ [step]) =
              rev (remdups (rev (map join_key_of (done @ [step]))))"
        using False Cons.prems by simp
    qed
    with False show ?thesis by simp
  qed
qed

lemma unique_loop_first:
  "seen = join_key_of ` set done \<Longrightarrow>
   \<forall>s \<in> set unique. find (\<lambda>x. join_key_of x = join_key_of s) done = Some s \<Longrightarrow>
   \<forall>s \<in> set (unique_loop rest unique seen).
      find (\<lambda>x. join_key_of x = join_key_of s) (done @ rest) = Some s"
proof (induction rest arbitrary: unique seen "done")
  case Nil
  then show ?case by simp
next
  case (Cons step rest)
  let ?k = "join_key_of step"
  have keep: "\<forall>s \<in> set unique.
      find (\<lambda>x. join_key_of x = join_key_of s) (done @ [step]) = Some s"
    using Cons.prems(2) by (simp add: find_append)
  show ?case
  proof (cases "?k \<in> seen")
    case True
    have "\<forall>s \<in> set (unique_loop rest unique seen).
            find (\<lambda>x. join_key_of x = join_key_of s) ((done @ [step]) @ rest) = Some s"
    proof (rule Cons.IH)
      show "seen = join_key_of ` set (done @ [step])"
        using True Cons.prems(1) by auto
      show "\<forall>s \<in> set unique.
              find (\<lambda>x. join_key_of x = join_key_of s) (done @ [step]) = Some s"
        by (rule keep)
    qed
    with True show ?thesis by simp
  next
    case False
    then have none: "find (\<lambda>x. join_key_of x = ?k) done = None"
      using Cons.prems(1) by (simp add: find_None_keys)
    have "\<forall>s \<in> set (unique_loop rest (unique @ [step]) (insert ?k seen)).
            find (\<lambda>x. join_key_of x = join_key_of s) ((done @ [step]) @ rest) = Some s"
    proof (rule Cons.IH)
      show "insert ?k seen = join_key_of ` set (done @ [step])"
        using Cons.prems(1) by auto
      show "\<forall>s \<in> set (unique @ [step]).
              find (\<lambda>x. join_key_of x = join_key_of s) (done @ [step]) = Some s"
        using keep none by (simp add: find_append)
    qed
    with False show ?thesis by simp
  qed
qed

lemma unique_loop_distinct:
  "distinct (map join_key_of (unique_loop all_paths [] {}))"
  using unique_loop_keys [of "{}" "[]" "[]" all_paths] by simp

lemma unique_loop_key_set:
  "join_key_of ` set (unique_loop all_paths [] {}) = join_key_of ` set all_paths"
proof -
  have "set (map join_key_of (unique_loop all_paths [] {})) = set (map join_key_of all_paths)"
    using unique_loop_keys [of "{}" "[]" "[]" all_paths] by simp
  then show ?thesis by simp
qed

lemma render_query_lines:
  "render_query tables select_all unique_joins =
     (if select_all then ''SELECT *''
      else ''SELECT'' @ [CHR 0x0A] @ ''    '' @
           str_join ('','' @ [CHR 0x0A] @ ''    '') (map (\<lambda>t. t @ ''.*'') tables)) @
     [CHR 0x0A] @ ''FROM '' @ hd tables @
     concat (map (\<lambda>s. [CHR 0x0A] @ ''JOIN '' @ step_to s @ '' ON '' @
                    step_from s @ ''.'' @ step_from_column s @ '' = '' @
                    step_to s @ ''.'' @ step_to_column s) unique_joins)"
  by (simp add: render_query_def Let_def str_join_Cons join_line_def comp_def
      del: str_join.simps)

lemma join_query_success:
  assumes "join_query_on_graph g iter tables select_all = Inr r" and "query_success r"
  shows "\<exists>all_paths joined.
           connect_targets g iter (tl tables) [] [hd tables] = Inr (Connected all_paths joined) \<and>
           query_paths r = unique_loop all_paths [] {} \<and>
           query_sql r = Some (render_query tables select_all (query_paths r))"
  using assms
  by (auto simp: join_query_on_graph_def Let_def split: sum.splits connect_result.splits)

lemma generate_join_query_graph:
  assumes "generate_join_query iter conn tables schema select_all = Inr r"
    and "query_success r \<or> query_sql r \<noteq> None"
  shows "join_query_on_graph (build_relationship_graph conn schema) iter tables select_all = Inr r"
  using assms by (auto simp: generate_join_query_def split: if_splits)


lemma demo_items_orders:
  "find_path_between_tables (build_relationship_graph demo_conn ''public'')
     ''order_items'' ''orders'' =
   Inr (Some
     [\<lparr> step_from = ''order_items'', step_to = ''orders'', step_from_column = ''order_id'',
        step_to_column = ''id'', step_constraint = ''fk_items_order'',
        step_reverse = False \<rparr>])"
  by (simp add: find_path_between_tables_def demo_get_foreign_keys demo_adjacency
      make_step_def Let_def)

lemma demo_no_products:
  "find_path_between_tables (build_relationship_graph demo_conn ''public'') j ''products''
     = Inr None"
  by (simp add: find_path_between_tables_def demo_get_foreign_keys demo_adjacency)

lemma demo_three_tables:
  "generate_join_query (\<lambda>xs. xs) demo_conn [''order_items'', ''customers'', ''orders'']
     ''public'' False =
   Inr \<lparr> query_success = True,
         query_sql = Some
           (''SELECT'' @ [CHR 0x0A] @
            ''    order_items.*,'' @ [CHR 0x0A] @
            ''    customers.*,'' @ [CHR 0x0A] @
            ''    orders.*'' @ [CHR 0x0A] @
            ''FROM order_items'' @ [CHR 0x0A] @
            ''JOIN orders ON order_items.order_id = orders.id'' @ [CHR 0x0A] @
            ''JOIN customers ON orders.customer_id = customers.id''),
         query_explanation = ''Generated JOIN connecting 3 tables using 2 relationships'',
         query_paths =
           [\<lparr> step_from = ''order_items'', step_to = ''orders'',
              step_from_column = ''order_id'', step_to_column = ''id'',
              step_constraint = ''fk_items_order'', step_reverse = False \<rparr>,
            \<lparr> step_from = ''orders'', step_to = ''customers'',
              step_from_column = ''customer_id'', step_to_column = ''id'',
              step_constraint = ''fk_orders_customer'', step_reverse = False \<rparr>] \<rparr>"
  by (simp add: generate_join_query_def join_query_on_graph_def demo_two_steps
      demo_items_orders truthy_def set_add_def join_key_of_def render_query_def
      join_line_def str_nat.simps Let_def)

text \<open>
  C6. When the multi-table query succeeds, the joins it reports have pairwise different
  keys (from, to, from_column, to_column); their keys are the keys of the accumulated
  steps in the order of their first occurrence, each join being the first accumulated
  step with its key; and the SQL has one \<open>JOIN\<close> line for each of them, in that order.
\<close>

theorem unique_joins_distinct:
  assumes "generate_join_query iter conn tables schema select_all = Inr r"
    and "query_success r"
  shows "distinct (map join_key_of (query_paths r)) \<and>
     (\<exists>all_paths joined.
        connect_targets (build_relationship_graph conn schema) iter (tl tables) [] [hd tables]
          = Inr (Connected all_paths joined) \<and>
        map join_key_of (query_paths r) = rev (remdups (rev (map join_key_of all_paths))) \<and>
        (\<forall>s \<in> set (query_paths r).
           find (\<lambda>x. join_key_of x = join_key_of s) all_paths = Some s)) \<and>
     query_sql r = Some
       ((if select_all then ''SELECT *''
         else ''SELECT'' @ [CHR 0x0A] @ ''    '' @
              str_join ('','' @ [CHR 0x0A] @ ''    '') (map (\<lambda>t. t @ ''.*'') tables)) @
        [CHR 0x0A] @ ''FROM '' @ hd tables @
        concat (map (\<lambda>s. [CHR 0x0A] @ ''JOIN '' @ step_to s @ '' ON '' @
                       step_from s @ ''.'' @ step_from_column s @ '' = '' @
                       step_to s @ ''.'' @ step_to_column s) (query_paths r)))"
proof -
  let ?g = "build_relationship_graph conn schema"
  from generate_join_query_graph [OF assms(1)] assms(2)
  have "join_query_on_graph ?g iter tables select_all = Inr r" by simp
  from join_query_success [OF this assms(2)] obtain all_paths joined where
    c: "connect_targets ?g iter (tl tables) [] [hd tables] = Inr (Connected all_paths joined)"
    and u: "query_paths r = unique_loop all_paths [] {}"
    and q: "query_sql r = Some (render_query tables select_all (query_paths r))"
    by blast
  have k: "map join_key_of (query_paths r) = rev (remdups (rev (map join_key_of all_paths)))"
    unfolding u using unique_loop_keys [of "{}" "[]" "[]" all_paths] by simp
  have f: "\<forall>s \<in> set (query_paths r).
             find (\<lambda>x. join_key_of x = join_key_of s) all_paths = Some s"
    unfolding u using unique_loop_first [of "{}" "[]" "[]" all_paths] by simp
  have d: "distinct (map join_key_of (query_paths r))"
    unfolding u by (rule unique_loop_distinct)
  from c k f have "\<exists>all_paths joined.
        connect_targets ?g iter (tl tables) [] [hd tables] = Inr (Connected all_paths joined) \<and>
        map join_key_of (query_paths r) = rev (remdups (rev (map join_key_of all_paths))) \<and>
        (\<forall>s \<in> set (query_paths r).
           find (\<lambda>x. join_key_of x = join_key_of s) all_paths = Some s)"
    by blast
  with d q show ?thesis
    unfolding render_query_lines by blast
qed

theorem unique_joins_distinct_witness:
  "\<exists>r. generate_join_query (\<lambda>xs. xs) demo_conn [''order_items'', ''customers'', ''orders'']
          ''public'' False = Inr r \<and>
     query_success r \<and> length (query_paths r) = 2 \<and>
     distinct (map join_key_of (query_paths r)) \<and>
     (\<exists>all_paths joined.
        connect_targets (build_relationship_graph demo_conn ''public'') (\<lambda>xs. xs)
          [''customers'', ''orders''] [] [''order_items''] = Inr (Connected all_paths joined) \<and>
        length all_paths = 3 \<and>
        map join_key_of (query_paths r) = rev (remdups (rev (map join_key_of all_paths))))"
proof -
  obtain r where r: "generate_join_query (\<lambda>xs. xs) demo_conn
      [''order_items'', ''customers'', ''orders''] ''public'' False = Inr r"
    and s: "query_success r" and l: "length (query_paths r) = 2"
    by (simp add: demo_three_tables)
  have c: "connect_targets (build_relationship_graph demo_conn ''public'') (\<lambda>xs. xs)
          [''customers'', ''orders''] [] [''order_items''] =
        Inr (Connected
          [\<lparr> step_from = ''order_items'', step_to = ''orders'',
              step_from_column = ''order_id'', step_to_column = ''id'',
              step_constraint = ''fk_items_order'', step_reverse = False \<rparr>,
            \<lparr> step_from = ''orders'', step_to = ''customers'',
              step_from_column = ''customer_id'', step_to_column = ''id'',
              step_constraint = ''fk_orders_customer'', step_reverse = False \<rparr>,
            \<lparr> step_from = ''order_items'', step_to = ''orders'',
              step_from_column = ''order_id'', step_to_column = ''id'',
              step_constraint = ''fk_items_order'', step_reverse = False \<rparr>]
          [''order_items'', ''orders'', ''customers''])"
    by (simp add: demo_two_steps demo_items_orders truthy_def set_add_def)
  from unique_joins_distinct [OF r s] r s l c show ?thesis
    by auto
qed

text \<open>
  C8. If the targets before \<open>t\<close> were connected and the path finder answers NOT_FOUND for
  \<open>t\<close> from every table joined so far, the query fails with an explanation that names
  the base table and \<open>t\<close>, without SQL, and reports the steps accumulated so far. When
  SQL is returned, every requested table is the base table of the \<open>FROM\<close> line or the
  table of one of the \<open>JOIN\<close> lines.
\<close>

theorem unreachable_target_fails:
  "((\<forall>xs. set (iter xs) = set xs) \<and>
    connect_targets (build_relationship_graph conn schema) iter pre [] [base]
      = Inr (Connected acc joined) \<and>
    (\<forall>j \<in> set joined.
       find_path_between_tables (build_relationship_graph conn schema) j t = Inr None) \<longrightarrow>
    generate_join_query iter conn (base # pre @ t # post) schema select_all =
      Inr \<lparr> query_success = False, query_sql = None,
            query_explanation = ''Cannot find path from '' @ base @ '' to '' @ t,
            query_paths = acc \<rparr>) \<and>
   (generate_join_query iter conn tables schema select_all = Inr r \<and> query_sql r \<noteq> None \<longrightarrow>
    query_success r \<and>
    (\<forall>t' \<in> set tables. t' = hd tables \<or> (\<exists>s \<in> set (query_paths r). step_to s = t')) \<and>
    query_sql r = Some
       ((if select_all then ''SELECT *''
         else ''SELECT'' @ [CHR 0x0A] @ ''    '' @
              str_join ('','' @ [CHR 0x0A] @ ''    '') (map (\<lambda>t. t @ ''.*'') tables)) @
        [CHR 0x0A] @ ''FROM '' @ hd tables @
        concat (map (\<lambda>s. [CHR 0x0A] @ ''JOIN '' @ step_to s @ '' ON '' @
                       step_from s @ ''.'' @ step_from_column s @ '' = '' @
                       step_to s @ ''.'' @ step_to_column s) (query_paths r))))"
proof (intro conjI impI)
  let ?g = "build_relationship_graph conn schema"
  assume h: "(\<forall>xs. set (iter xs) = set xs) \<and>
    connect_targets ?g iter pre [] [base] = Inr (Connected acc joined) \<and>
    (\<forall>j \<in> set joined. find_path_between_tables ?g j t = Inr None)"
  then have "\<forall>j \<in> set (iter joined).
      \<exists>q. find_path_between_tables ?g j t = Inr q \<and> \<not> truthy q"
    by (simp add: truthy_def)
  from try_joined_falsy [OF this, of None] obtain q where
    "try_joined ?g t (iter joined) None = Inr q" "\<not> truthy q"
    by (auto simp: truthy_def)
  then have "connect_targets ?g iter (t # post) acc joined = Inr (Unreachable t acc)"
    by (rule connect_targets_unreachable)
  with h have "connect_targets ?g iter (pre @ t # post) [] [base] = Inr (Unreachable t acc)"
    by (simp add: connect_targets_append)
  then show "generate_join_query iter conn (base # pre @ t # post) schema select_all =
      Inr \<lparr> query_success = False, query_sql = None,
            query_explanation = ''Cannot find path from '' @ base @ '' to '' @ t,
            query_paths = acc \<rparr>"
    by (simp add: generate_join_query_def join_query_on_graph_def)
next
  let ?g = "build_relationship_graph conn schema"
  assume h: "generate_join_query iter conn tables schema select_all = Inr r \<and>
             query_sql r \<noteq> None"
  then have j: "join_query_on_graph ?g iter tables select_all = Inr r"
    using generate_join_query_graph by blast
  with h show s: "query_success r"
    by (auto simp: join_query_on_graph_def Let_def split: sum.splits connect_result.splits)
  from join_query_success [OF j s] obtain all_paths joined where
    c: "connect_targets ?g iter (tl tables) [] [hd tables] = Inr (Connected all_paths joined)"
    and u: "query_paths r = unique_loop all_paths [] {}"
    and q: "query_sql r = Some (render_query tables select_all (query_paths r))"
    by blast
  from q show "query_sql r = Some
       ((if select_all then ''SELECT *''
         else ''SELECT'' @ [CHR 0x0A] @ ''    '' @
              str_join ('','' @ [CHR 0x0A] @ ''    '') (map (\<lambda>t. t @ ''.*'') tables)) @
        [CHR 0x0A] @ ''FROM '' @ hd tables @
        concat (map (\<lambda>s. [CHR 0x0A] @ ''JOIN '' @ step_to s @ '' ON '' @
                       step_from s @ ''.'' @ step_from_column s @ '' = '' @
                       step_to s @ ''.'' @ step_to_column s) (query_paths r)))"
    unfolding render_query_lines .
  show "\<forall>t' \<in> set tables. t' = hd tables \<or> (\<exists>s \<in> set (query_paths r). step_to s = t')"
  proof
    fix t' assume t': "t' \<in> set tables"
    show "t' = hd tables \<or> (\<exists>s \<in> set (query_paths r). step_to s = t')"
    proof (cases "t' = hd tables")
      case True
      then show ?thesis by simp
    next
      case False
      with t' have "t' \<in> set (tl tables)" by (cases tables) auto
      with connect_targets_reaches [OF c] obtain s where
        s: "s \<in> set all_paths" "step_to s = t'"
        by auto
      then have "join_key_of s \<in> join_key_of ` set (query_paths r)"
        unfolding u unique_loop_key_set by blast
      then obtain s' where "s' \<in> set (query_paths r)" "join_key_of s' = join_key_of s"
        by auto
      with s(2) show ?thesis by (auto simp: join_key_of_def)
    qed
  qed
qed

theorem unreachable_target_fails_witness:
  "(\<forall>xs::string list. set ((\<lambda>xs. xs) xs) = set xs) \<and>
   connect_targets (build_relationship_graph demo_conn ''public'') (\<lambda>xs. xs)
     [''customers''] [] [''orders''] =
     Inr (Connected
       [\<lparr> step_from = ''orders'', step_to = ''customers'', step_from_column = ''customer_id'',
          step_to_column = ''id'', step_constraint = ''fk_orders_customer'',
          step_reverse = False \<rparr>]
       [''orders'', ''customers'']) \<and>
   find_path_between_tables (build_relationship_graph demo_conn ''public'')
     ''orders'' ''products'' = Inr None \<and>
   find_path_between_tables (build_relationship_graph demo_conn ''public'')
     ''customers'' ''products'' = Inr None \<and>
   generate_join_query (\<lambda>xs. xs) demo_conn [''orders'', ''customers'', ''products'']
     ''public'' False =
     Inr \<lparr> query_success = False, query_sql = None,
           query_explanation = ''Cannot find path from orders to products'',
           query_paths =
             [\<lparr> step_from = ''orders'', step_to = ''customers'',
                step_from_column = ''customer_id'', step_to_column = ''id'',
                step_constraint = ''fk_orders_customer'', step_reverse = False \<rparr>] \<rparr> \<and>
   (\<exists>r. generate_join_query (\<lambda>xs. xs) demo_conn [''order_items'', ''customers'', ''orders'']
           ''public'' False = Inr r \<and> query_sql r \<noteq> None \<and> query_success r \<and>
         map step_to (query_paths r) = [''orders'', ''customers''])"
proof -
  let ?g = "build_relationship_graph demo_conn ''public''"
  let ?s = "\<lparr> step_from = ''orders'', step_to = ''customers'', step_from_column = ''customer_id'',
          step_to_column = ''id'', step_constraint = ''fk_orders_customer'',
          step_reverse = False \<rparr>"
  have a: "\<forall>xs::string list. set ((\<lambda>xs. xs) xs) = set xs" by simp
  have b: "connect_targets ?g (\<lambda>xs. xs) [''customers''] [] [''orders''] =
     Inr (Connected [?s] [''orders'', ''customers''])"
    by (simp add: demo_one_step truthy_def set_add_def)
  have c: "\<forall>j \<in> set [''orders'', ''customers''].
      find_path_between_tables ?g j ''products'' = Inr None"
    by (simp add: demo_no_products)
  obtain r where r: "generate_join_query (\<lambda>xs. xs) demo_conn
      [''order_items'', ''customers'', ''orders''] ''public'' False = Inr r"
    and n: "query_sql r \<noteq> None"
    and m: "map step_to (query_paths r) = [''orders'', ''customers'']"
    by (simp add: demo_three_tables)
  from unreachable_target_fails [of "\<lambda>xs. xs" demo_conn "''public''" "[''customers'']"
      "''orders''" "[?s]" "[''orders'', ''customers'']" "''products''" "[]" False
      "[''order_items'', ''customers'', ''orders'']" r]
    a b c r n m
  show ?thesis by simp
qed

text \<open>
  C10. In the order example the list \<open>[orders, orders]\<close> is rejected, whatever the order
  in which the set of joined tables is visited: the path finder gives the empty path from
  \<open>orders\<close> to itself, and the loop takes it for the absence of a path.
\<close>

theorem duplicate_table_rejected:
  assumes "\<forall>xs. set (iter xs) = set xs"
  shows "find_path_between_tables (build_relationship_graph demo_conn ''public'')
           ''orders'' ''orders'' = Inr (Some []) \<and>
         generate_join_query iter demo_conn [''orders'', ''orders''] ''public'' select_all =
           Inr \<lparr> query_success = False, query_sql = None,
                 query_explanation = ''Cannot find path from orders to orders'',
                 query_paths = [] \<rparr>"
proof -
  let ?g = "build_relationship_graph demo_conn ''public''"
  from assms have "set (iter [''orders'']) = {''orders''}" by simp
  then have "\<forall>j \<in> set (iter [''orders'']).
      \<exists>q. find_path_between_tables ?g j ''orders'' = Inr q \<and> \<not> truthy q"
    by (simp add: demo_same_table truthy_def)
  from try_joined_falsy [OF this, of None] obtain q where
    "try_joined ?g ''orders'' (iter [''orders'']) None = Inr q" "\<not> truthy q"
    by (auto simp: truthy_def)
  then have "connect_targets ?g iter [''orders''] [] [''orders'']
               = Inr (Unreachable ''orders'' [])"
    by (rule connect_targets_unreachable)
  then show ?thesis
    by (simp add: demo_same_table generate_join_query_def join_query_on_graph_def)
qed

theorem duplicate_table_rejected_witness:
  "(\<forall>xs::string list. set ((\<lambda>xs. xs) xs) = set xs) \<and>
   find_path_between_tables (build_relationship_graph demo_conn ''public'')
     ''orders'' ''orders'' = Inr (Some []) \<and>
   generate_join_query (\<lambda>xs. xs) demo_conn [''orders'', ''orders''] ''public'' False =
     Inr \<lparr> query_success = False, query_sql = None,
           query_explanation = ''Cannot find path from orders to orders'',
           query_paths = [] \<rparr>"
proof -
  have a: "\<forall>xs::string list. set ((\<lambda>xs. xs) xs) = set xs" by simp
  from duplicate_table_rejected [OF a, of False] a show ?thesis by simp
qed


subsection \<open>Shortest paths\<close>

lemma walk_snoc:
  "walk adj a (Suc k) b \<longleftrightarrow>
     (\<exists>y. walk adj a k y \<and> (\<exists>e \<in> set (edges_of adj y). edge_to e = b))"
proof (induction k arbitrary: a)
  case 0
  show ?case by auto
next
  case (Suc k)
  have "walk adj a (Suc (Suc k)) b \<longleftrightarrow>
        (\<exists>e \<in> set (edges_of adj a). walk adj (edge_to e) (Suc k) b)"
    by simp
  also have "\<dots> \<longleftrightarrow> (\<exists>e \<in> set (edges_of adj a).
        \<exists>y. walk adj (edge_to e) k y \<and> (\<exists>e' \<in> set (edges_of adj y). edge_to e' = b))"
    using Suc.IH by simp
  also have "\<dots> \<longleftrightarrow> (\<exists>y. walk adj a (Suc k) y \<and>
        (\<exists>e' \<in> set (edges_of adj y). edge_to e' = b))"
    by auto
  finally show ?case .
qed

lemma walk_closed:
  "\<forall>w \<in> v. \<forall>e \<in> set (edges_of adj w). edge_to e \<in> v \<Longrightarrow> a \<in> v \<Longrightarrow>
   walk adj a k b \<Longrightarrow> b \<in> v"
  by (induction k arbitrary: a) auto

lemma closed_graph_key:
  "closed_graph adj \<Longrightarrow> e \<in> set (edges_of adj w) \<Longrightarrow> map_of adj (edge_to e) \<noteq> None"
proof -
  assume c: "closed_graph adj" and e: "e \<in> set (edges_of adj w)"
  then obtain es where "map_of adj w = Some es" "e \<in> set es"
    by (cases "map_of adj w") (auto simp: edges_of_def)
  then have "(w, es) \<in> set adj" by (auto dest: map_of_SomeD)
  with c \<open>e \<in> set es\<close> show ?thesis
    unfolding closed_graph_def by blast
qed

lemma bfs_inv_level_up:
  assumes inv: "bfs_inv adj start n visited ((cur, p) # rest)" and len: "length p = Suc n"
  shows "bfs_inv adj start (Suc n) visited ((cur, p) # rest)"
proof -
  let ?q = "(cur, p) # rest"
  from inv obtain q1 q2 where split: "?q = q1 @ q2"
    "\<forall>(t, p) \<in> set q1. length p = n" "\<forall>(t, p) \<in> set q2. length p = Suc n"
    unfolding bfs_inv_def by blast
  have "q1 = []"
  proof (cases q1)
    case Nil
    then show ?thesis .
  next
    case (Cons x xs)
    with split(1) have "x = (cur, p)" by simp
    with Cons split(2) len show ?thesis by auto
  qed
  with split have all: "\<forall>(t, p) \<in> set ?q. length p = Suc n" by simp
  have lev: "\<exists>q1 q2. ?q = q1 @ q2 \<and>
        (\<forall>(t, p) \<in> set q1. length p = Suc n) \<and> (\<forall>(t, p) \<in> set q2. length p = Suc (Suc n))"
    using all by (intro exI [of _ ?q] exI [of _ "[]"]) simp
  from inv have ent: "\<forall>(t, p) \<in> set ?q.
        map_of adj t \<noteq> None \<and> t \<in> visited \<and> (\<forall>j. walk adj start j t \<longrightarrow> length p \<le> j)"
    and near: "\<forall>x j. j \<le> n \<longrightarrow> walk adj start j x \<longrightarrow> x \<in> visited"
    and fin: "\<forall>w \<in> visited. w \<in> fst ` set ?q \<or>
                 (\<forall>e \<in> set (edges_of adj w). edge_to e \<in> visited)"
    unfolding bfs_inv_def by blast+
  have "x \<in> visited" if j: "j \<le> Suc n" and w: "walk adj start j x" for x j
  proof (cases "j \<le> n")
    case True
    with near w show ?thesis by blast
  next
    case False
    with j have "j = Suc n" by simp
    with w have "walk adj start (Suc n) x" by simp
    then obtain y e where y: "walk adj start n y"
      and e: "e \<in> set (edges_of adj y)" "edge_to e = x"
      unfolding walk_snoc by blast
    from near y have yv: "y \<in> visited" by blast
    have "y \<notin> fst ` set ?q"
    proof
      assume "y \<in> fst ` set ?q"
      then obtain py where py: "(y, py) \<in> set ?q" by force
      with all have "length py = Suc n" by blast
      moreover from ent py y have "length py \<le> n" by blast
      ultimately show False by simp
    qed
    with fin yv e show ?thesis by blast
  qed
  with ent lev fin show ?thesis
    unfolding bfs_inv_def by blast
qed

lemma bfs_inv_step:
  assumes inv: "bfs_inv adj start n visited ((cur, p) # rest)" and len: "length p = n"
    and closed: "closed_graph adj"
    and edges: "map_of adj cur = Some edges"
    and visit: "visit_edges end_table cur p edges visited rest = Inr (visited', queue')"
  shows "bfs_inv adj start n visited' queue'"
proof -
  let ?q = "(cur, p) # rest"
  from visit_edges_Inr [OF visit] obtain new where
    v: "visited' = visited \<union> edge_to ` set edges"
    and q: "queue' = rest @ new"
    and n: "\<forall>(t, q) \<in> set new. t \<notin> visited \<and> t \<in> visited' \<and>
               (\<exists>e \<in> set edges. t = edge_to e \<and> q = p @ [make_step cur e])"
    and c: "\<forall>t \<in> visited' - visited. t \<in> fst ` set new"
    by blast
  from inv have ent: "\<forall>(t, p) \<in> set ?q.
        map_of adj t \<noteq> None \<and> t \<in> visited \<and> (\<forall>j. walk adj start j t \<longrightarrow> length p \<le> j)"
    and near: "\<forall>x j. j \<le> n \<longrightarrow> walk adj start j x \<longrightarrow> x \<in> visited"
    and fin: "\<forall>w \<in> visited. w \<in> fst ` set ?q \<or>
                 (\<forall>e \<in> set (edges_of adj w). edge_to e \<in> visited)"
    unfolding bfs_inv_def by blast+
  from inv obtain q1 q2 where split: "?q = q1 @ q2"
    "\<forall>(t, p) \<in> set q1. length p = n" "\<forall>(t, p) \<in> set q2. length p = Suc n"
    unfolding bfs_inv_def by blast
  have eo: "edges_of adj cur = edges"
    using edges by (simp add: edges_of_def)
  \<comment> \<open>entries\<close>
  have ent': "map_of adj t \<noteq> None \<and> t \<in> visited' \<and>
              (\<forall>j. walk adj start j t \<longrightarrow> length r \<le> j)"
    if "(t, r) \<in> set queue'" for t r
  proof (cases "(t, r) \<in> set rest")
    case True
    with ent v show ?thesis by auto
  next
    case False
    with that q have tn: "(t, r) \<in> set new" by simp
    with n obtain e where e: "t \<notin> visited" "t \<in> visited'" "e \<in> set edges"
      "t = edge_to e" "r = p @ [make_step cur e]"
      by blast
    have "map_of adj t \<noteq> None"
      using closed_graph_key [OF closed, of e cur] e eo by simp
    moreover have "length r \<le> j" if "walk adj start j t" for j
    proof (rule ccontr)
      assume "\<not> length r \<le> j"
      with e(5) len have "j \<le> n" by simp
      with near that have "t \<in> visited" by blast
      with e(1) show False by simp
    qed
    ultimately show ?thesis using e(2) by blast
  qed
  \<comment> \<open>levels\<close>
  have lev: "\<exists>r1 r2. queue' = r1 @ r2 \<and>
        (\<forall>(t, p) \<in> set r1. length p = n) \<and> (\<forall>(t, p) \<in> set r2. length p = Suc n)"
  proof (cases q1)
    case Nil
    with split have "\<forall>(t, p) \<in> set rest. length p = Suc n" by auto
    moreover have "\<forall>(t, r) \<in> set new. length r = Suc n"
      using n len by auto
    ultimately have "\<forall>(t, p) \<in> set (rest @ new). length p = Suc n" by auto
    then show ?thesis
      unfolding q by (intro exI [of _ "[]"] exI [of _ "rest @ new"]) simp
  next
    case (Cons x xs)
    with split(1) have r: "rest = xs @ q2" by simp
    have "\<forall>(t, p) \<in> set xs. length p = n"
      using split(2) Cons by auto
    moreover have "\<forall>(t, r) \<in> set (q2 @ new). length r = Suc n"
      using n len split(3) by auto
    ultimately show ?thesis
      unfolding q r by (intro exI [of _ xs] exI [of _ "q2 @ new"]) simp
  qed
  \<comment> \<open>near tables stay visited\<close>
  have near': "\<forall>x j. j \<le> n \<longrightarrow> walk adj start j x \<longrightarrow> x \<in> visited'"
    using near v by blast
  \<comment> \<open>visited tables outside the queue are finished\<close>
  have fin': "w \<in> fst ` set queue' \<or> (\<forall>e \<in> set (edges_of adj w). edge_to e \<in> visited')"
    if "w \<in> visited'" for w
  proof (cases "w \<in> visited")
    case False
    with that c have "w \<in> fst ` set new" by blast
    then show ?thesis unfolding q by auto
  next
    case True
    show ?thesis
    proof (cases "w = cur")
      case True
      then show ?thesis using eo v by auto
    next
      case False
      with fin \<open>w \<in> visited\<close> have
        "w \<in> fst ` set rest \<or> (\<forall>e \<in> set (edges_of adj w). edge_to e \<in> visited)"
        by auto
      then show ?thesis unfolding q using v by auto
    qed
  qed
  from ent' lev near' fin' show ?thesis
    unfolding bfs_inv_def by blast
qed


lemma bfs_loop_shortest:
  "closed_graph adj \<Longrightarrow> bfs_inv adj start n visited queue \<Longrightarrow> end_table \<notin> visited \<Longrightarrow>
   walk adj start k end_table \<Longrightarrow>
   \<exists>p. bfs_loop adj end_table visited queue = Inr (Some p) \<and> length p \<le> k"
proof (induction adj end_table visited queue arbitrary: n rule: bfs_loop.induct)
  case (1 adj end_table visited)
  from "1.prems"(2) have fin: "\<forall>w \<in> visited. \<forall>e \<in> set (edges_of adj w). edge_to e \<in> visited"
    and near: "\<forall>x j. j \<le> n \<longrightarrow> walk adj start j x \<longrightarrow> x \<in> visited"
    unfolding bfs_inv_def by auto
  have "walk adj start 0 start" by simp
  with near have "start \<in> visited" by blast
  from walk_closed [OF fin this "1.prems"(4)] "1.prems"(3) show ?case by simp
next
  case (2 adj end_table visited cur p rest)
  let ?q = "(cur, p) # rest"
  from "2.prems"(2) have "map_of adj cur \<noteq> None"
    unfolding bfs_inv_def by auto
  then obtain edges where edges: "map_of adj cur = Some edges" by blast
  \<comment> \<open>the level of the head of the queue\<close>
  have "\<exists>m. bfs_inv adj start m visited ?q \<and> length p = m"
  proof -
    from "2.prems"(2) obtain q1 q2 where "?q = q1 @ q2"
      "\<forall>(t, p) \<in> set q1. length p = n" "\<forall>(t, p) \<in> set q2. length p = Suc n"
      unfolding bfs_inv_def by blast
    then have "length p = n \<or> length p = Suc n"
      by (cases q1) auto
    then show ?thesis
      using "2.prems"(2) bfs_inv_level_up by blast
  qed
  then obtain m where inv: "bfs_inv adj start m visited ?q" and len: "length p = m"
    by blast
  from inv have near: "\<forall>x j. j \<le> m \<longrightarrow> walk adj start j x \<longrightarrow> x \<in> visited"
    unfolding bfs_inv_def by blast
  show ?case
  proof (cases "visit_edges end_table cur p edges visited rest")
    case (Inl new_path)
    from visit_edges_Inl [OF Inl] have "length new_path = Suc m"
      using len by auto
    moreover have "\<not> k \<le> m"
      using near "2.prems"(3,4) by blast
    ultimately show ?thesis
      using edges Inl by simp
  next
    case (Inr r)
    obtain visited' queue' where r: "r = (visited', queue')" by (cases r)
    from bfs_inv_step [OF inv len "2.prems"(1) edges Inr [unfolded r]]
    have inv': "bfs_inv adj start m visited' queue'" .
    from visit_edges_Inr [OF Inr [unfolded r]] "2.prems"(3)
    have "end_table \<notin> visited'" by blast
    from "2.IH" [OF edges Inr r [symmetric] "2.prems"(1) inv' this "2.prems"(4)]
    show ?thesis using edges Inr r by simp
  qed
qed

lemma closed_graph_dict_append:
  assumes "\<forall>k es. map_of adj k = Some es \<longrightarrow> (\<forall>e \<in> set es. map_of adj (edge_to e) \<noteq> None)"
  shows "\<forall>k es. map_of (dict_append (to_table fk) (reverse_edge fk)
                     (dict_append (from_table fk) (forward_edge fk) adj)) k = Some es \<longrightarrow>
           (\<forall>e \<in> set es. map_of (dict_append (to_table fk) (reverse_edge fk)
                     (dict_append (from_table fk) (forward_edge fk) adj)) (edge_to e) \<noteq> None)"
proof (intro allI impI ballI)
  fix k es e
  let ?adj1 = "dict_append (from_table fk) (forward_edge fk) adj"
  let ?adj2 = "dict_append (to_table fk) (reverse_edge fk) ?adj1"
  assume k: "map_of ?adj2 k = Some es" and e: "e \<in> set es"
  have keys: "map_of ?adj2 x \<noteq> None"
    if "x = from_table fk \<or> x = to_table fk \<or> map_of adj x \<noteq> None" for x
    using that by (auto simp: map_of_dict_append)
  have old: "map_of adj (edge_to e') \<noteq> None" if "e' \<in> set (edges_of adj k')" for e' k'
    using that assms by (cases "map_of adj k'") (auto simp: edges_of_def)
  from k e have "e \<in> set (edges_of ?adj2 k)"
    by (simp add: edges_of_def)
  then have "e = reverse_edge fk \<or> e = forward_edge fk \<or> (\<exists>k'. e \<in> set (edges_of adj k'))"
    by (auto simp: edges_of_dict_append split: if_splits)
  then show "map_of ?adj2 (edge_to e) \<noteq> None"
  proof (elim disjE exE)
    assume "e = reverse_edge fk"
    then show ?thesis using keys by (simp add: reverse_edge_def)
  next
    assume "e = forward_edge fk"
    then show ?thesis using keys by (simp add: forward_edge_def)
  next
    fix k' assume "e \<in> set (edges_of adj k')"
    from old [OF this] show ?thesis using keys by blast
  qed
qed

lemma closed_build_adjacency:
  "\<forall>k es. map_of adj k = Some es \<longrightarrow> (\<forall>e \<in> set es. map_of adj (edge_to e) \<noteq> None) \<Longrightarrow>
   \<forall>k es. map_of (build_adjacency fks adj) k = Some es \<longrightarrow>
     (\<forall>e \<in> set es. map_of (build_adjacency fks adj) (edge_to e) \<noteq> None)"
proof (induction fks arbitrary: adj)
  case Nil
  then show ?case by simp
next
  case (Cons fk fks)
  from Cons.IH [OF closed_graph_dict_append [OF Cons.prems, of fk]]
  show ?case by simp
qed

lemma build_graph_closed:
  "closed_graph (adjacency (build_relationship_graph conn schema))"
proof -
  have "\<forall>k es. map_of (build_adjacency (get_foreign_keys conn schema) []) k = Some es \<longrightarrow>
     (\<forall>e \<in> set es. map_of (build_adjacency (get_foreign_keys conn schema) []) (edge_to e)
        \<noteq> None)"
    by (rule closed_build_adjacency) simp
  moreover have "distinct (map fst (build_adjacency fks adj))" if "distinct (map fst adj)"
    for fks and adj :: adjacency_map
    using that by (induction fks arbitrary: adj) (simp_all add: distinct_dict_append)
  then have "distinct (map fst (build_adjacency (get_foreign_keys conn schema) []))"
    by simp
  ultimately have "map_of (adjacency (build_relationship_graph conn schema)) (edge_to e) \<noteq> None"
    if "(k, es) \<in> set (adjacency (build_relationship_graph conn schema))" "e \<in> set es"
    for k es e
    using that by (simp del: not_None_eq)
  then show ?thesis
    unfolding closed_graph_def by blast
qed

lemma bfs_loop_steps:
  "\<forall>(t, q) \<in> set queue. \<forall>s \<in> set q.
      \<exists>e \<in> set (edges_of adj (step_from s)). s = make_step (step_from s) e \<Longrightarrow>
   bfs_loop adj end_table visited queue = Inr (Some p) \<Longrightarrow>
   \<forall>s \<in> set p. \<exists>e \<in> set (edges_of adj (step_from s)). s = make_step (step_from s) e"
proof (induction adj end_table visited queue rule: bfs_loop.induct)
  case (1 adj end_table visited)
  then show ?case by simp
next
  case (2 adj end_table visited cur path queue)
  let ?ok = "\<lambda>s. \<exists>e \<in> set (edges_of adj (step_from s)). s = make_step (step_from s) e"
  from "2.prems"(1) have cur: "\<forall>s \<in> set path. ?ok s"
    and rest: "\<forall>(t, q) \<in> set queue. \<forall>s \<in> set q. ?ok s"
    by simp_all
  from "2.prems"(2) obtain edges where edges: "map_of adj cur = Some edges"
    by (cases "map_of adj cur") simp_all
  then have eo: "edges_of adj cur = edges" by (simp add: edges_of_def)
  have ext: "\<forall>s \<in> set (path @ [make_step cur e]). ?ok s" if "e \<in> set edges" for e
  proof -
    have "step_from (make_step cur e) = cur" by (simp add: make_step_def)
    with that eo have "?ok (make_step cur e)" by auto
    with cur show ?thesis by simp
  qed
  show ?case
  proof (cases "visit_edges end_table cur path edges visited queue")
    case (Inl new_path)
    with "2.prems"(2) edges have "p = new_path" by simp
    with visit_edges_Inl [OF Inl] obtain e where "e \<in> set edges" "p = path @ [make_step cur e]"
      by blast
    with ext show ?thesis by blast
  next
    case (Inr r)
    obtain visited' queue' where r: "r = (visited', queue')" by (cases r)
    from visit_edges_Inr [OF Inr [unfolded r]] obtain new where
      q: "queue' = queue @ new"
      and n: "\<forall>(t, q) \<in> set new. t \<notin> visited \<and> t \<in> visited' \<and>
               (\<exists>e \<in> set edges. t = edge_to e \<and> q = path @ [make_step cur e])"
      by blast
    have "\<forall>s \<in> set q'. ?ok s" if "(t, q') \<in> set queue'" for t q'
    proof (cases "(t, q') \<in> set queue")
      case True
      with rest show ?thesis by blast
    next
      case False
      with that q have "(t, q') \<in> set new" by simp
      with n obtain e where "e \<in> set edges" "q' = path @ [make_step cur e]" by blast
      with ext show ?thesis by blast
    qed
    then have inv: "\<forall>(t, q) \<in> set queue'. \<forall>s \<in> set q.
        \<exists>e \<in> set (edges_of adj (step_from s)). s = make_step (step_from s) e"
      by blast
    from "2.prems"(2) edges Inr r
    have "bfs_loop adj end_table visited' queue' = Inr (Some p)" by simp
    from "2.IH" [OF edges Inr r [symmetric] inv this] show ?thesis .
  qed
qed

text \<open>
  C1. In a graph whose adjacency entries all lead to keys of the adjacency dictionary (as
  in every graph that \<open>build_relationship_graph\<close> returns), if \<open>k\<close> adjacency entries
  lead from the start table to the end table, both keys of the dictionary, the path
  finder returns a path from the start table to the end table, made of entries of the
  adjacency lists, and this path has at most \<open>k\<close> steps.
\<close>

theorem find_path_shortest:
  assumes "closed_graph (adjacency g)"
    and "map_of (adjacency g) start_table \<noteq> None"
    and "map_of (adjacency g) end_table \<noteq> None"
    and "walk (adjacency g) start_table k end_table"
  shows "\<exists>p. find_path_between_tables g start_table end_table = Inr (Some p) \<and>
           length p \<le> k \<and>
           linked start_table p \<and> path_end start_table p = end_table \<and>
           (\<forall>s \<in> set p. \<exists>e \<in> set (edges_of (adjacency g) (step_from s)).
              s = make_step (step_from s) e)"
proof (cases "start_table = end_table")
  case True
  with assms show ?thesis by (simp add: find_path_between_tables_def path_end_def)
next
  case False
  let ?run = "bfs_loop (adjacency g) end_table {start_table} [(start_table, [])]"
  have "bfs_inv (adjacency g) start_table 0 {start_table} [(start_table, [])]"
    unfolding bfs_inv_def using assms(2)
    by (auto intro: exI [of _ "[(start_table, [])]"])
  from bfs_loop_shortest [OF assms(1) this _ assms(4)] False
  obtain p where p: "?run = Inr (Some p)" and len: "length p \<le> k"
    by auto
  have "\<forall>entry \<in> set [(start_table, [])]. entry_ok start_table {start_table} entry"
    by (simp add: entry_ok_def path_end_def)
  from bfs_loop_shape [OF this p]
  have shape: "linked start_table p" "path_end start_table p = end_table" by simp_all
  have "\<forall>(t, q) \<in> set [(start_table, [])]. \<forall>s \<in> set q.
      \<exists>e \<in> set (edges_of (adjacency g) (step_from s)). s = make_step (step_from s) e"
    by simp
  from bfs_loop_steps [OF this p]
  have steps: "\<forall>s \<in> set p. \<exists>e \<in> set (edges_of (adjacency g) (step_from s)).
      s = make_step (step_from s) e" .
  from False assms(2,3) p have "find_path_between_tables g start_table end_table = Inr (Some p)"
    by (simp add: find_path_between_tables_def)
  with len shape steps show ?thesis by blast
qed

lemma triangle_adjacency:
  "adjacency (build_relationship_graph triangle_conn ''public'') =
     [(''order_items'',
        [\<lparr> edge_to = ''orders'', edge_from_column = ''order_id'', edge_to_column = ''id'',
           edge_constraint = ''fk_items_order'', edge_reverse = None \<rparr>,
         \<lparr> edge_to = ''customers'', edge_from_column = ''customer_id'', edge_to_column = ''id'',
           edge_constraint = ''fk_items_customer'', edge_reverse = None \<rparr>]),
      (''orders'',
        [\<lparr> edge_to = ''order_items'', edge_from_column = ''id'', edge_to_column = ''order_id'',
           edge_constraint = ''fk_items_order'', edge_reverse = Some True \<rparr>,
         \<lparr> edge_to = ''customers'', edge_from_column = ''customer_id'', edge_to_column = ''id'',
           edge_constraint = ''fk_orders_customer'', edge_reverse = None \<rparr>]),
      (''customers'',
        [\<lparr> edge_to = ''orders'', edge_from_column = ''id'', edge_to_column = ''customer_id'',
           edge_constraint = ''fk_orders_customer'', edge_reverse = Some True \<rparr>,
         \<lparr> edge_to = ''order_items'', edge_from_column = ''id'',
           edge_to_column = ''customer_id'', edge_constraint = ''fk_items_customer'',
           edge_reverse = Some True \<rparr>])]"
  by (simp add: get_foreign_keys_def triangle_conn_def triangle_fks_def dict_append_def
      forward_edge_def reverse_edge_def)

theorem find_path_shortest_witness:
  "closed_graph (adjacency (build_relationship_graph triangle_conn ''public'')) \<and>
   map_of (adjacency (build_relationship_graph triangle_conn ''public'')) ''order_items''
     \<noteq> None \<and>
   map_of (adjacency (build_relationship_graph triangle_conn ''public'')) ''customers''
     \<noteq> None \<and>
   walk (adjacency (build_relationship_graph triangle_conn ''public''))
     ''order_items'' (Suc (Suc 0)) ''customers'' \<and>
   (\<exists>p. find_path_between_tables (build_relationship_graph triangle_conn ''public'')
           ''order_items'' ''customers'' = Inr (Some p) \<and> length p \<le> Suc (Suc 0) \<and>
         linked ''order_items'' p \<and> path_end ''order_items'' p = ''customers'')"
proof -
  let ?g = "build_relationship_graph triangle_conn ''public''"
  have a: "closed_graph (adjacency ?g)"
    unfolding triangle_adjacency by (simp add: closed_graph_def)
  have b: "map_of (adjacency ?g) ''order_items'' \<noteq> None"
    unfolding triangle_adjacency by simp
  have c: "map_of (adjacency ?g) ''customers'' \<noteq> None"
    unfolding triangle_adjacency by simp
  have d: "walk (adjacency ?g) ''order_items'' (Suc (Suc 0)) ''customers''"
    unfolding triangle_adjacency
    by (simp add: edges_of_def ex_disj_distrib conj_disj_distribR)
  from find_path_shortest [OF a b c d] a b c d show ?thesis by blast
qed

lemma triangle_direct:
  "find_path_between_tables (build_relationship_graph triangle_conn ''public'')
     ''order_items'' ''customers'' =
   Inr (Some
     [\<lparr> step_from = ''order_items'', step_to = ''customers'',
        step_from_column = ''customer_id'', step_to_column = ''id'',
        step_constraint = ''fk_items_customer'', step_reverse = False \<rparr>])"
  unfolding find_path_between_tables_def triangle_adjacency
  by (simp add: make_step_def Let_def)

end
